theory Spec2Isabelle
  imports Main
begin

section \<open>JavaScript values\<close>

text \<open>
  The hub of \<^verbatim>\<open>src/src/index.js\<close> is dynamically typed: every argument may be any
  JavaScript value, and the hub tests them with \<^verbatim>\<open>typeof\<close>, \<^verbatim>\<open>Array.isArray\<close> and
  \<^verbatim>\<open>===\<close>.  A value is one of the primitives, an array, a plain object or a function.
  Arrays and plain objects carry their identity (a \<open>nat\<close>), so that HOL equality on values
  is the comparison a JavaScript \<^verbatim>\<open>Set\<close> makes.  Numbers are integers here: the hub never
  computes with a number it is given.  Strings are lists of 8-bit characters.

  A function value is the built-in default logger, a function written by the user
  (named by a number; what it does is given by a \<open>program\<close>, below), or the wrapper
  closure that \<^verbatim>\<open>once\<close> builds, which captures \<^verbatim>\<open>eventName\<close>, \<^verbatim>\<open>id\<close> and \<^verbatim>\<open>callback\<close>.
\<close>

datatype jsval =
    VUndefined
  | VNull
  | VBool bool
  | VNum int
  | VStr string
  | VObj nat
  | VArr nat "jsval list"
  | VFun func
and func =
    DefaultLogger
  | UserFn nat
  | OnceWrapper string jsval func

fun typeof :: "jsval \<Rightarrow> string" where
  "typeof VUndefined = ''undefined''"
| "typeof VNull = ''object''"
| "typeof (VBool b) = ''boolean''"
| "typeof (VNum n) = ''number''"
| "typeof (VStr s) = ''string''"
| "typeof (VObj a) = ''object''"
| "typeof (VArr a xs) = ''object''"
| "typeof (VFun f) = ''function''"

section \<open>Objects with a null prototype\<close>

text \<open>
  \<^verbatim>\<open>Object.create(null)\<close> gives an object with own properties only.  It is modelled by
  the list of its properties in the order they were created.  Assigning to an existing
  key keeps the key's place; \<^verbatim>\<open>delete\<close> removes the property.

  \<^verbatim>\<open>Object.keys\<close> and \<^verbatim>\<open>Object.values\<close> enumerate in the order of the language's
  OrdinaryOwnPropertyKeys: first the keys that are array indices (the canonical decimal
  form of an integer from 0 to 2^32 - 2), in ascending numeric order, then all other
  string keys in the order of their creation.
\<close>

type_synonym 'v obj = "(string \<times> 'v) list"

fun obj_set :: "string \<Rightarrow> 'v \<Rightarrow> 'v obj \<Rightarrow> 'v obj" where
  "obj_set k v [] = [(k, v)]"
| "obj_set k v ((k', v') # ps) =
     (if k' = k then (k, v) # ps else (k', v') # obj_set k v ps)"

definition obj_delete :: "string \<Rightarrow> 'v obj \<Rightarrow> 'v obj" where
  "obj_delete k ps = filter (\<lambda>p. fst p \<noteq> k) ps"

definition is_digit :: "char \<Rightarrow> bool" where
  "is_digit c = (48 \<le> (of_char c :: nat) \<and> (of_char c :: nat) \<le> 57)"

definition digits_value :: "string \<Rightarrow> nat" where
  "digits_value s = foldl (\<lambda>n c. 10 * n + ((of_char c :: nat) - 48)) 0 s"

fun is_array_index :: "string \<Rightarrow> bool" where
  "is_array_index [] = False"
| "is_array_index (c # cs) =
     (list_all is_digit (c # cs) \<and> (c \<noteq> CHR ''0'' \<or> cs = [])
      \<and> digits_value (c # cs) \<le> 4294967294)"

definition own_properties :: "'v obj \<Rightarrow> 'v obj" where
  "own_properties ps =
     sort_key (\<lambda>p. digits_value (fst p)) (filter (\<lambda>p. is_array_index (fst p)) ps)
     @ filter (\<lambda>p. \<not> is_array_index (fst p)) ps"

definition object_keys :: "'v obj \<Rightarrow> string list" where
  "object_keys ps = map fst (own_properties ps)"

definition object_values :: "'v obj \<Rightarrow> 'v list" where
  "object_values ps = map snd (own_properties ps)"

section \<open>String trimming\<close>

text \<open>
  \<^verbatim>\<open>String.prototype.trim\<close> removes white space and line terminators from both ends.
  Of those, the code units below 256 are tab, line feed, vertical tab, form feed,
  carriage return, space and no-break space.
\<close>

definition is_ws :: "char \<Rightarrow> bool" where
  "is_ws c = ((of_char c :: nat) \<in> {9, 10, 11, 12, 13, 32, 160})"

definition trim :: "string \<Rightarrow> string" where
  "trim s = rev (dropWhile is_ws (rev (dropWhile is_ws s)))"

section \<open>Errors\<close>

text \<open>
  One constructor for each \<^verbatim>\<open>throw\<close> of the source, with the values its message
  interpolates; \<open>Thrown\<close> is a value thrown by a user function; \<open>UndefinedAccess\<close> is the
  TypeError the runtime raises when a property of \<^verbatim>\<open>undefined\<close> is read or written.
\<close>

datatype error =
    EventNamesNotArray
  | NoEventNames
  | DuplicateEventNames
  | EventNameNotString string
  | EventNotRegistered jsval "string list"
  | ListenerIdNotNonEmptyString
  | CallbackNotFunction
  | ListenerIdNotString
  | DebugNotBooleanOrArray
  | LoggerNotFunction
  | UndefinedAccess
  | Thrown jsval

datatype errclass = TypeError | PlainError

text \<open>The constructor each hub error is made with: \<^verbatim>\<open>new TypeError(..)\<close> or \<^verbatim>\<open>new Error(..)\<close>.\<close>

fun error_class :: "error \<Rightarrow> errclass option" where
  "error_class EventNamesNotArray = Some TypeError"
| "error_class NoEventNames = Some PlainError"
| "error_class DuplicateEventNames = Some PlainError"
| "error_class (EventNameNotString t) = Some TypeError"
| "error_class (EventNotRegistered v names) = Some PlainError"
| "error_class ListenerIdNotNonEmptyString = Some TypeError"
| "error_class CallbackNotFunction = Some TypeError"
| "error_class ListenerIdNotString = Some TypeError"
| "error_class DebugNotBooleanOrArray = Some TypeError"
| "error_class LoggerNotFunction = Some TypeError"
| "error_class UndefinedAccess = Some TypeError"
| "error_class (Thrown v) = None"

text \<open>
  The specification names two kinds of error.  The source has no such names; the kind of
  a hub error is read off the statement that throws it: the "is not registered" error is
  \<open>UnknownChannel\<close>, every other error the hub throws itself is \<open>InvalidArgument\<close>.
\<close>

datatype kind = InvalidArgument | UnknownChannel

fun kind_of :: "error \<Rightarrow> kind option" where
  "kind_of (EventNotRegistered v names) = Some UnknownChannel"
| "kind_of UndefinedAccess = None"
| "kind_of (Thrown v) = None"
| "kind_of e = Some InvalidArgument"

section \<open>The hub's state\<close>

text \<open>
  The closure variables of \<^verbatim>\<open>createNexusHub\<close>.  The constructor rejects every name that
  is not a string, so \<open>eventNames\<close> and \<open>validEvents\<close> hold strings; \<open>callbacks\<close> is the
  outer null-prototype object, read only by key; \<open>debugFilter\<close> is \<^verbatim>\<open>null\<close> or a
  \<^verbatim>\<open>Set\<close>; \<open>onceWrappers\<close> is the WeakMap from callbacks to wrappers.  The hub keeps
  the caller's array of names itself; the caller is taken to leave it as it is.
\<close>

record hub =
  eventNames :: "string list"
  validEvents :: "string list"
  callbacks :: "string \<rightharpoonup> func obj"
  debugAll :: bool
  debugFilter :: "string set option"
  logger :: func
  onceWrappers :: "(func \<times> func) list"

datatype retval =
    RHub
  | RBool bool
  | RNum nat
  | RFuns "func list"
  | RNames "string list"

text \<open>
  \<^verbatim>\<open>validEvents.has(v)\<close>: only a string can be in the set.  \<open>valid_event\<close> gives
  the property key under which a declared event's listeners are kept.
\<close>

fun valid_event :: "hub \<Rightarrow> jsval \<Rightarrow> string option" where
  "valid_event h (VStr s) = (if s \<in> set (validEvents h) then Some s else None)"
| "valid_event h v = None"

definition not_registered :: "hub \<Rightarrow> jsval \<Rightarrow> error" where
  "not_registered h v = EventNotRegistered v (validEvents h)"

subsection \<open>Construction\<close>

text \<open>The loop \<^verbatim>\<open>for (const name of eventNames)\<close>, which stops at the first non-string.\<close>

fun init_callbacks :: "jsval list \<Rightarrow> (string \<rightharpoonup> func obj) \<Rightarrow> error + (string \<rightharpoonup> func obj)" where
  "init_callbacks [] cbs = Inr cbs"
| "init_callbacks (VStr s # names) cbs = init_callbacks names (cbs(s \<mapsto> []))"
| "init_callbacks (v # names) cbs = Inl (EventNameNotString (typeof v))"

fun strings_of :: "jsval list \<Rightarrow> string list" where
  "strings_of [] = []"
| "strings_of (VStr s # vs) = s # strings_of vs"
| "strings_of (v # vs) = strings_of vs"

fun createNexusHub :: "jsval \<Rightarrow> error + hub" where
  "createNexusHub (VArr a names) =
     (if length names = 0 then Inl NoEventNames
      else if length (remdups names) \<noteq> length names then Inl DuplicateEventNames
      else (case init_callbacks names Map.empty of
              Inl e \<Rightarrow> Inl e
            | Inr cbs \<Rightarrow>
                Inr \<lparr> eventNames = strings_of names, validEvents = strings_of names,
                      callbacks = cbs, debugAll = False, debugFilter = None,
                      logger = DefaultLogger, onceWrappers = [] \<rparr>))"
| "createNexusHub v = Inl EventNamesNotArray"

subsection \<open>on, once, off, clear\<close>

text \<open>
  Every operation returns what the call returns or throws, together with the state it
  leaves: a \<^verbatim>\<open>throw\<close> leaves the state as the statements before it made it.
\<close>

definition on :: "hub \<Rightarrow> jsval \<Rightarrow> jsval \<Rightarrow> jsval \<Rightarrow> (error + retval) \<times> hub" where
  "on h eventName ident callback =
     (case valid_event h eventName of
        None \<Rightarrow> (Inl (not_registered h eventName), h)
      | Some ev \<Rightarrow>
          (case ident of
             VStr i \<Rightarrow>
               (if trim i = [] then (Inl ListenerIdNotNonEmptyString, h)
                else case callback of
                  VFun f \<Rightarrow>
                    (case callbacks h ev of
                       Some ps \<Rightarrow> (Inr RHub, h\<lparr>callbacks := (callbacks h)(ev \<mapsto> obj_set i f ps)\<rparr>)
                     | None \<Rightarrow> (Inl UndefinedAccess, h))
                | _ \<Rightarrow> (Inl CallbackNotFunction, h))
           | _ \<Rightarrow> (Inl ListenerIdNotNonEmptyString, h)))"

text \<open>\<^verbatim>\<open>onceWrappers.set(callback, wrapper)\<close>\<close>

definition weakmap_set :: "func \<Rightarrow> func \<Rightarrow> (func \<times> func) list \<Rightarrow> (func \<times> func) list" where
  "weakmap_set k v m = (k, v) # filter (\<lambda>p. fst p \<noteq> k) m"

definition once :: "hub \<Rightarrow> jsval \<Rightarrow> jsval \<Rightarrow> jsval \<Rightarrow> (error + retval) \<times> hub" where
  "once h eventName ident callback =
     (case valid_event h eventName of
        None \<Rightarrow> (Inl (not_registered h eventName), h)
      | Some ev \<Rightarrow>
          (case callback of
             VFun f \<Rightarrow>
               (let wrapper = OnceWrapper ev ident f;
                    h1 = h\<lparr>onceWrappers := weakmap_set f wrapper (onceWrappers h)\<rparr>
                in on h1 eventName ident (VFun wrapper))
           | _ \<Rightarrow> (Inl CallbackNotFunction, h)))"

definition off :: "hub \<Rightarrow> jsval \<Rightarrow> jsval \<Rightarrow> (error + retval) \<times> hub" where
  "off h eventName ident =
     (case valid_event h eventName of
        None \<Rightarrow> (Inl (not_registered h eventName), h)
      | Some ev \<Rightarrow>
          (if ident = VUndefined then (Inr RHub, h\<lparr>callbacks := (callbacks h)(ev \<mapsto> [])\<rparr>)
           else case ident of
             VStr i \<Rightarrow>
               (case callbacks h ev of
                  Some ps \<Rightarrow> (Inr RHub, h\<lparr>callbacks := (callbacks h)(ev \<mapsto> obj_delete i ps)\<rparr>)
                | None \<Rightarrow> (Inl UndefinedAccess, h))
           | _ \<Rightarrow> (Inl ListenerIdNotString, h)))"

definition clear :: "hub \<Rightarrow> jsval \<Rightarrow> (error + retval) \<times> hub" where
  "clear h eventName =
     (if eventName \<noteq> VUndefined then
        (case valid_event h eventName of
           None \<Rightarrow> (Inl (not_registered h eventName), h)
         | Some ev \<Rightarrow> (Inr RHub, h\<lparr>callbacks := (callbacks h)(ev \<mapsto> [])\<rparr>))
      else (Inr RHub, h\<lparr>callbacks := foldl (\<lambda>m name. m(name \<mapsto> [])) (callbacks h) (eventNames h)\<rparr>))"

subsection \<open>listenerCount, listeners, eventNames\<close>

text \<open>These three only read the state.\<close>

fun count_all :: "(string \<rightharpoonup> func obj) \<Rightarrow> string list \<Rightarrow> nat \<Rightarrow> error + nat" where
  "count_all cbs [] n = Inr n"
| "count_all cbs (name # names) n =
     (case cbs name of
        Some ps \<Rightarrow> count_all cbs names (n + length (object_keys ps))
      | None \<Rightarrow> Inl UndefinedAccess)"

fun concat_all :: "(string \<rightharpoonup> func obj) \<Rightarrow> string list \<Rightarrow> func list \<Rightarrow> error + func list" where
  "concat_all cbs [] fs = Inr fs"
| "concat_all cbs (name # names) fs =
     (case cbs name of
        Some ps \<Rightarrow> concat_all cbs names (fs @ object_values ps)
      | None \<Rightarrow> Inl UndefinedAccess)"

definition listenerCount :: "hub \<Rightarrow> jsval \<Rightarrow> error + retval" where
  "listenerCount h eventName =
     (if eventName \<noteq> VUndefined then
        (case valid_event h eventName of
           None \<Rightarrow> Inl (not_registered h eventName)
         | Some ev \<Rightarrow>
             (case callbacks h ev of
                Some ps \<Rightarrow> Inr (RNum (length (object_keys ps)))
              | None \<Rightarrow> Inl UndefinedAccess))
      else map_sum id RNum (count_all (callbacks h) (eventNames h) 0))"

definition listeners :: "hub \<Rightarrow> jsval \<Rightarrow> error + retval" where
  "listeners h eventName =
     (if eventName \<noteq> VUndefined then
        (case valid_event h eventName of
           None \<Rightarrow> Inl (not_registered h eventName)
         | Some ev \<Rightarrow>
             (case callbacks h ev of
                Some ps \<Rightarrow> Inr (RFuns (object_values ps))
              | None \<Rightarrow> Inl UndefinedAccess))
      else map_sum id RFuns (concat_all (callbacks h) (eventNames h) []))"

definition eventNames_op :: "hub \<Rightarrow> retval" where
  "eventNames_op h = RNames (eventNames h)"

subsection \<open>setDebug, setLogger\<close>

definition setDebug :: "hub \<Rightarrow> jsval \<Rightarrow> (error + retval) \<times> hub" where
  "setDebug h enabled =
     (if enabled = VBool True then (Inr RHub, h\<lparr>debugAll := True, debugFilter := None\<rparr>)
      else if enabled = VBool False then (Inr RHub, h\<lparr>debugAll := False, debugFilter := None\<rparr>)
      else case enabled of
        VArr a evs \<Rightarrow>
          (case find (\<lambda>v. valid_event h v = None) evs of
             Some v \<Rightarrow> (Inl (not_registered h v), h)
           | None \<Rightarrow> (Inr RHub, h\<lparr>debugAll := False, debugFilter := Some (set (strings_of evs))\<rparr>))
      | _ \<Rightarrow> (Inl DebugNotBooleanOrArray, h))"

definition setLogger :: "hub \<Rightarrow> jsval \<Rightarrow> (error + retval) \<times> hub" where
  "setLogger h fn =
     (case fn of
        VFun f \<Rightarrow> (Inr RHub, h\<lparr>logger := f\<rparr>)
      | _ \<Rightarrow> (Inl LoggerNotFunction, h))"

text \<open>\<^verbatim>\<open>debugAll || (debugFilter && debugFilter.has(eventName))\<close>\<close>

definition debug_enabled :: "hub \<Rightarrow> string \<Rightarrow> bool" where
  "debug_enabled h ev = (debugAll h \<or> (case debugFilter h of None \<Rightarrow> False | Some s \<Rightarrow> ev \<in> s))"

section \<open>User functions and what an emission does\<close>

text \<open>
  Listeners and loggers are functions of the caller.  What matters to the hub is what
  such a function does to it: it may call the hub's operations (also \<^verbatim>\<open>emit\<close>, from
  inside a listener) and it may throw.  The body of user function \<open>k\<close>, called with
  arguments \<open>args\<close>, is the statement list \<open>prog k args\<close>; a hub call that throws ends
  the body with that error, as an uncaught exception does.
\<close>

datatype stmt =
    CallOn jsval jsval jsval
  | CallOnce jsval jsval jsval
  | CallOff jsval jsval
  | CallEmit jsval jsval
  | CallClear jsval
  | CallListenerCount jsval
  | CallListeners jsval
  | CallSetDebug jsval
  | CallSetLogger jsval
  | Throw jsval

type_synonym program = "nat \<Rightarrow> jsval list \<Rightarrow> stmt list"

text \<open>
  What can be observed of a run: each call of a function value (by whom, which function,
  its arguments, what happened inside it, and the error it threw, if any), and each line
  written to the console.  The default logger's line carries a time stamp, which is left
  out.
\<close>

datatype role = AsLogger | AsListener | AsCallback

datatype event =
    Invoked role func "jsval list" "event list" "error option"
  | ConsoleLog jsval jsval
  | ConsoleErrorListener string error
  | ConsoleErrorCount nat string

definition arg :: "nat \<Rightarrow> jsval list \<Rightarrow> jsval" where
  "arg i args = (if i < length args then args ! i else VUndefined)"

definition thrown :: "error + 'a \<Rightarrow> error option" where
  "thrown r = (case r of Inl e \<Rightarrow> Some e | Inr v \<Rightarrow> None)"

definition discard :: "error + 'a \<Rightarrow> error + unit" where
  "discard r = (case r of Inl e \<Rightarrow> Inl e | Inr v \<Rightarrow> Inr ())"

text \<open>The statements other than \<^verbatim>\<open>hub.emit(..)\<close>, which do not call back into user code.\<close>

fun simple_stmt :: "stmt \<Rightarrow> hub \<Rightarrow> (error + unit) \<times> hub" where
  "simple_stmt (CallOn c i f) h = (case on h c i f of (r, h1) \<Rightarrow> (discard r, h1))"
| "simple_stmt (CallOnce c i f) h = (case once h c i f of (r, h1) \<Rightarrow> (discard r, h1))"
| "simple_stmt (CallOff c i) h = (case off h c i of (r, h1) \<Rightarrow> (discard r, h1))"
| "simple_stmt (CallClear c) h = (case clear h c of (r, h1) \<Rightarrow> (discard r, h1))"
| "simple_stmt (CallListenerCount c) h = (discard (listenerCount h c), h)"
| "simple_stmt (CallListeners c) h = (discard (listeners h c), h)"
| "simple_stmt (CallSetDebug d) h = (case setDebug h d of (r, h1) \<Rightarrow> (discard r, h1))"
| "simple_stmt (CallSetLogger f) h = (case setLogger h f of (r, h1) \<Rightarrow> (discard r, h1))"
| "simple_stmt (Throw v) h = (Inl (Thrown v), h)"
| "simple_stmt (CallEmit c d) h = (Inr (), h)"

text \<open>
  A listener may emit, so \<^verbatim>\<open>emit\<close> and the calls of function values are mutually
  recursive, and a listener that emits on its own channel never returns.  The first
  argument bounds the depth of nested function calls; \<open>None\<close> means the bound was
  reached.

  \<^item> \<open>call_fn\<close> calls a function value: the default logger writes its line; a user
    function runs its body; the wrapper of \<^verbatim>\<open>once\<close> calls \<^verbatim>\<open>callback(data)\<close> and then
    \<^verbatim>\<open>hub.off(eventName, id)\<close>, which an exception from the callback skips.
  \<^item> \<open>emit\<close> validates the event, takes \<^verbatim>\<open>Object.values(callbacks[eventName])\<close>, calls
    the logger if debug is enabled (outside any \<^verbatim>\<open>try\<close>), runs the \<^verbatim>\<open>forEach\<close>, writes the
    count of errors if there were any and debug is enabled then, and returns
    \<^verbatim>\<open>listeners.length > 0\<close>.
  \<^item> \<open>forEach\<close> is the loop over the snapshot with its \<^verbatim>\<open>try\<close>/\<^verbatim>\<open>catch\<close>; it returns the
    \<^verbatim>\<open>errors\<close> array.
\<close>

function (sequential) call_fn :: "nat \<Rightarrow> program \<Rightarrow> func \<Rightarrow> jsval list \<Rightarrow> hub \<Rightarrow> ((error + unit) \<times> hub \<times> event list) option"
and exec :: "nat \<Rightarrow> program \<Rightarrow> stmt list \<Rightarrow> hub \<Rightarrow> ((error + unit) \<times> hub \<times> event list) option"
and exec_stmt :: "nat \<Rightarrow> program \<Rightarrow> stmt \<Rightarrow> hub \<Rightarrow> ((error + unit) \<times> hub \<times> event list) option"
and emit :: "nat \<Rightarrow> program \<Rightarrow> hub \<Rightarrow> jsval \<Rightarrow> jsval \<Rightarrow> ((error + retval) \<times> hub \<times> event list) option"
and call_logger :: "nat \<Rightarrow> program \<Rightarrow> hub \<Rightarrow> string \<Rightarrow> jsval \<Rightarrow> ((error + unit) \<times> hub \<times> event list) option"
and forEach :: "nat \<Rightarrow> program \<Rightarrow> string \<Rightarrow> func list \<Rightarrow> jsval \<Rightarrow> hub \<Rightarrow> (error list \<times> hub \<times> event list) option"
where
  "call_fn 0 prog f args h = None"
| "call_fn (Suc n) prog DefaultLogger args h = Some (Inr (), h, [ConsoleLog (arg 0 args) (arg 1 args)])"
| "call_fn (Suc n) prog (UserFn k) args h = exec n prog (prog k args) h"
| "call_fn (Suc n) prog (OnceWrapper ev ident cb) args h =
     (case call_fn n prog cb [arg 0 args] h of
        None \<Rightarrow> None
      | Some (Inl e, h1, evs) \<Rightarrow>
          Some (Inl e, h1, [Invoked AsCallback cb [arg 0 args] evs (Some e)])
      | Some (Inr u, h1, evs) \<Rightarrow>
          (case off h1 (VStr ev) ident of
             (r, h2) \<Rightarrow> Some (discard r, h2, [Invoked AsCallback cb [arg 0 args] evs None])))"
| "exec n prog [] h = Some (Inr (), h, [])"
| "exec n prog (s # ss) h =
     (case exec_stmt n prog s h of
        None \<Rightarrow> None
      | Some (Inl e, h1, evs) \<Rightarrow> Some (Inl e, h1, evs)
      | Some (Inr u, h1, evs) \<Rightarrow>
          (case exec n prog ss h1 of
             None \<Rightarrow> None
           | Some (r, h2, evs2) \<Rightarrow> Some (r, h2, evs @ evs2)))"
| "exec_stmt n prog (CallEmit c d) h =
     (case emit n prog h c d of
        None \<Rightarrow> None
      | Some (r, h1, evs) \<Rightarrow> Some (discard r, h1, evs))"
| "exec_stmt n prog s h = (case simple_stmt s h of (r, h1) \<Rightarrow> Some (r, h1, []))"
| "emit n prog h eventName data =
     (case valid_event h eventName of
        None \<Rightarrow> Some (Inl (not_registered h eventName), h, [])
      | Some ev \<Rightarrow>
          (case callbacks h ev of
             None \<Rightarrow> Some (Inl UndefinedAccess, h, [])
           | Some cbs \<Rightarrow>
               (case call_logger n prog h ev data of
                  None \<Rightarrow> None
                | Some (Inl e, h1, evs1) \<Rightarrow> Some (Inl e, h1, evs1)
                | Some (Inr u, h1, evs1) \<Rightarrow>
                    (case forEach n prog ev (object_values cbs) data h1 of
                       None \<Rightarrow> None
                     | Some (errors, h2, evs2) \<Rightarrow>
                         Some (Inr (RBool (length (object_values cbs) > 0)), h2,
                               evs1 @ evs2 @
                               (if length errors > 0 \<and> debug_enabled h2 ev
                                then [ConsoleErrorCount (length errors) ev] else []))))))"
| "call_logger n prog h ev data =
     (if debug_enabled h ev then
        (case call_fn n prog (logger h) [VStr ev, data] h of
           None \<Rightarrow> None
         | Some (r, h1, evs) \<Rightarrow>
             Some (r, h1, [Invoked AsLogger (logger h) [VStr ev, data] evs (thrown r)]))
      else Some (Inr (), h, []))"
| "forEach n prog ev [] data h = Some ([], h, [])"
| "forEach n prog ev (cb # cbs) data h =
     (case call_fn n prog cb [data] h of
        None \<Rightarrow> None
      | Some (r, h1, evs) \<Rightarrow>
          (case forEach n prog ev cbs data h1 of
             None \<Rightarrow> None
           | Some (errors, h2, evs2) \<Rightarrow>
               (case r of
                  Inl e \<Rightarrow>
                    Some (e # errors, h2,
                          Invoked AsListener cb [data] evs (Some e) # ConsoleErrorListener ev e # evs2)
                | Inr u \<Rightarrow>
                    Some (errors, h2, Invoked AsListener cb [data] evs None # evs2))))"
  by pat_completeness auto

text \<open>
  Termination: the depth bound goes down at every call of a function value; at equal
  depth a statement list calls a statement, a statement calls \<open>emit\<close>, \<open>emit\<close> calls the
  logger and the loop, and these call function values; the lists get shorter.
\<close>

termination
  by (relation "measures
        [\<lambda>x. case x of
            Inl (Inl (n, r)) \<Rightarrow> n
          | Inl (Inr (Inl (n, r))) \<Rightarrow> n
          | Inl (Inr (Inr (n, r))) \<Rightarrow> n
          | Inr (Inl (n, r)) \<Rightarrow> n
          | Inr (Inr (Inl (n, r))) \<Rightarrow> n
          | Inr (Inr (Inr (n, r))) \<Rightarrow> n,
         \<lambda>x. case x of
            Inl (Inl r) \<Rightarrow> 0
          | Inl (Inr (Inl r)) \<Rightarrow> 4
          | Inl (Inr (Inr r)) \<Rightarrow> 3
          | Inr (Inl r) \<Rightarrow> 2
          | Inr (Inr (Inl r)) \<Rightarrow> 1
          | Inr (Inr (Inr r)) \<Rightarrow> 1,
         \<lambda>x. case x of
            Inl (Inr (Inl (n, prog, ss, h))) \<Rightarrow> length ss
          | Inr (Inr (Inr (n, prog, ev, cbs, r))) \<Rightarrow> length cbs
          | _ \<Rightarrow> 0]") auto

section \<open>Reading a run\<close>

text \<open>
  The calls an emission makes itself, in order: of listeners (function, arguments, error
  caught), of the logger, and of the callback that a listener which is a wrapper of
  \<^verbatim>\<open>once\<close> calls in turn; and the \<^verbatim>\<open>console.error\<close> lines that report a listener's
  error.
\<close>

fun listener_calls :: "event list \<Rightarrow> (func \<times> jsval list \<times> error option) list" where
  "listener_calls [] = []"
| "listener_calls (Invoked AsListener f args nested err # evs) = (f, args, err) # listener_calls evs"
| "listener_calls (e # evs) = listener_calls evs"

fun logger_calls :: "event list \<Rightarrow> (func \<times> jsval list) list" where
  "logger_calls [] = []"
| "logger_calls (Invoked AsLogger f args nested err # evs) = (f, args) # logger_calls evs"
| "logger_calls (e # evs) = logger_calls evs"



fun error_reports :: "event list \<Rightarrow> (string \<times> error) list" where
  "error_reports [] = []"
| "error_reports (ConsoleErrorListener ev e # evs) = (ev, e) # error_reports evs"
| "error_reports (e # evs) = error_reports evs"

text \<open>
  The loop of an emission calls the listeners of the snapshot one after the other, each
  in the state that the call before it left.  \<open>call_states\<close> lists these calls (the
  function and the state in which it is called), up to and including a call that does
  not finish; \<open>after_calls\<close> is the state after the last call, whatever the calls
  returned or threw.
\<close>

fun call_states :: "nat \<Rightarrow> program \<Rightarrow> func list \<Rightarrow> jsval \<Rightarrow> hub \<Rightarrow> (func \<times> hub) list" where
  "call_states n prog [] data h = []"
| "call_states n prog (cb # cbs) data h =
     (cb, h) # (case call_fn n prog cb [data] h of
                  None \<Rightarrow> []
                | Some (r, h1, evs) \<Rightarrow> call_states n prog cbs data h1)"

fun after_calls :: "nat \<Rightarrow> program \<Rightarrow> func list \<Rightarrow> jsval \<Rightarrow> hub \<Rightarrow> hub option" where
  "after_calls n prog [] data h = Some h"
| "after_calls n prog (cb # cbs) data h =
     (case call_fn n prog cb [data] h of
        None \<Rightarrow> None
      | Some (r, h1, evs) \<Rightarrow> after_calls n prog cbs data h1)"

text \<open>
  The calls of the hub other than \<^verbatim>\<open>setDebug\<close> and \<^verbatim>\<open>emit\<close>; they run no user code.
  \<open>after_plain h ss\<close> is the hub after a caller has made the calls \<open>ss\<close> one after the
  other, catching what they throw.
\<close>

fun plain_call :: "stmt \<Rightarrow> bool" where
  "plain_call (CallSetDebug d) = False"
| "plain_call (CallEmit c d) = False"
| "plain_call s = True"

fun after_plain :: "hub \<Rightarrow> stmt list \<Rightarrow> hub" where
  "after_plain h [] = h"
| "after_plain h (s # ss) = after_plain (snd (simple_stmt s h)) ss"

section \<open>Well-formed hubs\<close>

text \<open>
  What construction establishes and every operation keeps: the declared names are the
  valid events, and each has its listener object.
\<close>

definition wf_hub :: "hub \<Rightarrow> bool" where
  "wf_hub h = (eventNames h = validEvents h \<and> (\<forall>ev \<in> set (validEvents h). callbacks h ev \<noteq> None))"

text \<open>The hub that a successful construction from the given names returns.\<close>

definition new_hub :: "string list \<Rightarrow> hub" where
  "new_hub names =
     \<lparr> eventNames = names, validEvents = names,
       callbacks = (\<lambda>ev. if ev \<in> set names then Some [] else None),
       debugAll = False, debugFilter = None, logger = DefaultLogger, onceWrappers = [] \<rparr>"

text \<open>Registering a list of (id, callback) pairs on one event with \<^verbatim>\<open>on\<close>, one after the other.\<close>

definition register_all :: "hub \<Rightarrow> jsval \<Rightarrow> (string \<times> func) list \<Rightarrow> hub" where
  "register_all h eventName regs =
     foldl (\<lambda>h1 p. snd (on h1 eventName (VStr (fst p)) (VFun (snd p)))) h regs"

text \<open>
  The order of registration of a list of (id, callback) pairs: each id once, at the place
  of its first registration, with the callback of its last registration.
\<close>

definition first_ids :: "(string \<times> 'v) list \<Rightarrow> string list" where
  "first_ids regs = rev (remdups (rev (map fst regs)))"

definition registration_order :: "(string \<times> 'v) list \<Rightarrow> (string \<times> 'v) list" where
  "registration_order regs =
     List.map_filter (\<lambda>i. map_option (Pair i) (map_of (rev regs) i)) (first_ids regs)"

text \<open>The errors the loop catches, as a list of calls records them.\<close>

definition caught :: "(func \<times> jsval list \<times> error option) list \<Rightarrow> error list" where
  "caught calls = List.map_filter (\<lambda>c. snd (snd c)) calls"

text \<open>A later state of the same hub: still well-formed, with the same valid events.\<close>

definition kept :: "hub \<Rightarrow> hub \<Rightarrow> bool" where
  "kept h h' = (wf_hub h' \<and> validEvents h' = validEvents h)"

section \<open>Examples\<close>

text \<open>The program in which every user function has an empty body: it returns at once.\<close>

definition idle :: program where
  "idle k args = []"

text \<open>The listeners a finished emission called, in order.\<close>

definition called :: "((error + retval) \<times> hub \<times> event list) option \<Rightarrow> func list" where
  "called res = (case res of Some (r, h, evs) \<Rightarrow> map fst (listener_calls evs) | None \<Rightarrow> [])"

text \<open>User function 1 throws; every other user function returns at once.\<close>

definition boom :: program where
  "boom k args = (if k = 1 then [Throw (VStr ''boom'')] else [])"

text \<open>
  User function 1, when called with \<^verbatim>\<open>undefined\<close>, removes listener \<open>y\<close> of event \<open>a\<close>,
  registers user function 3 as listener \<open>z\<close> of it, and emits event \<open>a\<close> again with payload
  0; called with anything else, and every other user function, returns at once.
\<close>

definition rewire :: program where
  "rewire k args =
     (if k = 1 \<and> args = [VUndefined]
      then [CallOff (VStr ''a'') (VStr ''y''), CallOn (VStr ''a'') (VStr ''z'') (VFun (UserFn 3)),
            CallEmit (VStr ''a'') (VNum 0)]
      else [])"

text \<open>The state a run leaves, the errors it reported, and what it returned or threw.\<close>

definition state_of :: "('r \<times> hub \<times> event list) option \<Rightarrow> hub \<Rightarrow> hub" where
  "state_of res h = (case res of Some (r, h', evs) \<Rightarrow> h' | None \<Rightarrow> h)"


definition returned :: "((error + retval) \<times> hub \<times> event list) option \<Rightarrow> (error + retval) option" where
  "returned res = (case res of Some (r, h, evs) \<Rightarrow> Some r | None \<Rightarrow> None)"

text \<open>
  A hub with events \<open>a\<close> and \<open>b\<close> and, on \<open>a\<close>, user function 1 as listener \<open>x\<close> and user
  function 2 as listener \<open>y\<close>; and the same hub after \<^verbatim>\<open>setDebug(true)\<close>.
\<close>

definition two_listeners :: hub where
  "two_listeners = register_all (new_hub [''a'', ''b'']) (VStr ''a'') [(''x'', UserFn 1), (''y'', UserFn 2)]"

definition two_listeners_debug :: hub where
  "two_listeners_debug = snd (setDebug two_listeners (VBool True))"

text \<open>The calls of the logger a run made.\<close>

definition logged :: "((error + retval) \<times> hub \<times> event list) option \<Rightarrow> (func \<times> jsval list) list" where
  "logged res = (case res of Some (r, h, evs) \<Rightarrow> logger_calls evs | None \<Rightarrow> [])"

text \<open>
  The hub with two listeners and debug enabled, after \<^verbatim>\<open>setLogger\<close> has installed user
  function 1 as the logger.
\<close>

definition throwing_logger :: hub where
  "throwing_logger = snd (setLogger two_listeners_debug (VFun (UserFn 1)))"






text \<open>
  User function 1 registers user function 2 as listener \<open>q\<close> of event \<open>a\<close> and then
  throws.
\<close>

definition meddle :: program where
  "meddle k args =
     (if k = 1 then [CallOn (VStr ''a'') (VStr ''q'') (VFun (UserFn 2)), Throw (VStr ''boom'')] else [])"





text \<open>
  The hub with two listeners after \<^verbatim>\<open>setDebug(x)\<close> followed by \<^verbatim>\<open>on('a','z',f3)\<close> and
  \<^verbatim>\<open>off('a','x')\<close>.
\<close>

definition debug_then :: "jsval \<Rightarrow> hub" where
  "debug_then x =
     after_plain (snd (setDebug two_listeners x))
       [CallOn (VStr ''a'') (VStr ''z'') (VFun (UserFn 3)), CallOff (VStr ''a'') (VStr ''x'')]"

section \<open>Objects and registration\<close>

lemma own_properties_length: "length (own_properties ps) = length ps"
  by (simp add: own_properties_def sum_length_filter_compl)

lemma own_properties_no_index:
  "\<forall>p \<in> set ps. \<not> is_array_index (fst p) \<Longrightarrow> own_properties ps = ps"
  by (simp add: own_properties_def filter_empty_conv[THEN iffD2] filter_id_conv[THEN iffD2])

lemma obj_set_fresh: "k \<notin> fst ` set ps \<Longrightarrow> obj_set k v ps = ps @ [(k, v)]"
  by (induction ps) auto

lemma hub_callbacks_triv: "callbacks h ev = Some ps \<Longrightarrow> h\<lparr>callbacks := (callbacks h)(ev \<mapsto> ps)\<rparr> = h"
  by (simp add: map_upd_triv)

lemma on_ok:
  "valid_event h eventName = Some ev \<Longrightarrow> callbacks h ev = Some ps \<Longrightarrow> trim i \<noteq> [] \<Longrightarrow>
   on h eventName (VStr i) (VFun f) = (Inr RHub, h\<lparr>callbacks := (callbacks h)(ev \<mapsto> obj_set i f ps)\<rparr>)"
  by (simp add: on_def)

lemma valid_event_callbacks_upd [simp]:
  "valid_event (h\<lparr>callbacks := c\<rparr>) v = valid_event h v"
  by (cases v) auto

lemma first_ids_set: "set (first_ids regs) = fst ` set regs"
  by (simp add: first_ids_def)

lemma first_ids_distinct: "distinct (first_ids regs)"
  by (simp add: first_ids_def)

lemma first_ids_snoc:
  "first_ids (regs @ [(i, f)]) = (if i \<in> fst ` set regs then first_ids regs else first_ids regs @ [i])"
  by (simp add: first_ids_def)

lemma map_of_rev_defined: "j \<in> fst ` set regs \<Longrightarrow> \<exists>v. map_of (rev regs) j = Some v"
  by (metis image_set map_of_eq_None_iff not_None_eq set_rev)

lemma registration_order_map:
  "registration_order regs = map (\<lambda>j. (j, the (map_of (rev regs) j))) (first_ids regs)"
proof -
  have "\<forall>j \<in> set xs. \<exists>v. map_of (rev regs) j = Some v \<Longrightarrow>
        List.map_filter (\<lambda>i. map_option (Pair i) (map_of (rev regs) i)) xs
        = map (\<lambda>j. (j, the (map_of (rev regs) j))) xs" for xs
    by (induction xs) (auto simp: List.map_filter_simps)
  moreover have "\<forall>j \<in> set (first_ids regs). \<exists>v. map_of (rev regs) j = Some v"
    using map_of_rev_defined[of _ regs] by (simp add: first_ids_set)
  ultimately show ?thesis by (simp add: registration_order_def)
qed

lemma obj_set_present:
  "distinct js \<Longrightarrow> i \<in> set js \<Longrightarrow>
   obj_set i f (map (\<lambda>j. (j, g j)) js) = map (\<lambda>j. (j, if j = i then f else g j)) js"
proof (induction js)
  case Nil
  then show ?case by simp
next
  case (Cons j js)
  show ?case
  proof (cases "j = i")
    case True
    with Cons.prems have "i \<notin> set js" by simp
    then have "map (\<lambda>j. (j, if j = i then f else g j)) js = map (\<lambda>j. (j, g j)) js"
      by (intro map_cong) auto
    with True show ?thesis by simp
  next
    case False
    with Cons show ?thesis by simp
  qed
qed

lemma registration_order_snoc:
  "registration_order (regs @ [(i, f)]) = obj_set i f (registration_order regs)"
proof (cases "i \<in> fst ` set regs")
  case True
  then have "i \<in> set (first_ids regs)" by (simp add: first_ids_set)
  from obj_set_present[OF first_ids_distinct this, of f "\<lambda>j. the (map_of (rev regs) j)"]
  show ?thesis using True by (simp add: registration_order_map first_ids_snoc)
next
  case False
  then have fresh: "i \<notin> fst ` set (registration_order regs)"
    by (simp add: registration_order_map first_ids_set image_image)
  have "map (\<lambda>j. (j, the (map_of (rev (regs @ [(i, f)])) j))) (first_ids regs)
        = map (\<lambda>j. (j, the (map_of (rev regs) j))) (first_ids regs)"
    using False by (intro map_cong) (auto simp: first_ids_set)
  then show ?thesis using False obj_set_fresh[OF fresh, of f]
    by (simp add: registration_order_map first_ids_snoc)
qed

lemma obj_set_all:
  "foldl (\<lambda>ps p. obj_set (fst p) (snd p) ps) [] regs = registration_order regs"
proof (induction regs rule: rev_induct)
  case Nil
  then show ?case by (simp add: registration_order_def first_ids_def List.map_filter_simps)
next
  case (snoc p regs)
  obtain i f where p: "p = (i, f)" by (cases p)
  with snoc show ?case by (simp add: registration_order_snoc)
qed

lemma registration_order_distinct:
  "distinct (map fst regs) \<Longrightarrow> registration_order regs = regs"
proof (induction regs rule: rev_induct)
  case Nil
  then show ?case by (simp add: registration_order_def first_ids_def List.map_filter_simps)
next
  case (snoc p regs)
  obtain i f where p: "p = (i, f)" by (cases p)
  with snoc.prems have "i \<notin> fst ` set regs" "distinct (map fst regs)" by auto
  with snoc.IH p show ?case by (simp add: registration_order_snoc obj_set_fresh)
qed

lemma register_all_any:
  assumes "valid_event h eventName = Some ev" and "callbacks h ev = Some ps"
    and "\<forall>p \<in> set regs. trim (fst p) \<noteq> []"
  shows "register_all h eventName regs
         = h\<lparr>callbacks := (callbacks h)(ev \<mapsto> foldl (\<lambda>ps p. obj_set (fst p) (snd p) ps) ps regs)\<rparr>"
  using assms
proof (induction regs arbitrary: h ps)
  case Nil
  have "register_all h eventName [] = h" by (simp add: register_all_def)
  with hub_callbacks_triv[OF Nil.prems(2)] show ?case by (simp only: foldl.simps)
next
  case (Cons p regs)
  obtain i f where p: "p = (i, f)" by (cases p)
  let ?h1 = "h\<lparr>callbacks := (callbacks h)(ev \<mapsto> obj_set i f ps)\<rparr>"
  from Cons.prems p have step: "on h eventName (VStr i) (VFun f) = (Inr RHub, ?h1)"
    by (simp add: on_ok)
  have IH: "register_all ?h1 eventName regs
            = ?h1\<lparr>callbacks := (callbacks ?h1)(ev \<mapsto> foldl (\<lambda>ps p. obj_set (fst p) (snd p) ps) (obj_set i f ps) regs)\<rparr>"
  proof (rule Cons.IH)
    show "valid_event ?h1 eventName = Some ev" using Cons.prems by simp
    show "callbacks ?h1 ev = Some (obj_set i f ps)" by simp
    show "\<forall>p\<in>set regs. trim (fst p) \<noteq> []" using Cons.prems by simp
  qed
  have e1: "?h1\<lparr>callbacks := (callbacks ?h1)(ev \<mapsto> foldl (\<lambda>ps p. obj_set (fst p) (snd p) ps) (obj_set i f ps) regs)\<rparr>
            = h\<lparr>callbacks := (callbacks h)(ev \<mapsto> foldl (\<lambda>ps p. obj_set (fst p) (snd p) ps) ps ((i, f) # regs))\<rparr>"
    by simp
  have e2: "register_all h eventName ((i, f) # regs) = register_all ?h1 eventName regs"
    using step by (simp add: register_all_def)
  show ?case by (simp only: p e2 IH e1)
qed

lemma register_all_order:
  assumes "valid_event h eventName = Some ev" and "callbacks h ev = Some ps"
    and "distinct (map fst ps)" and "\<forall>p \<in> set regs. trim (fst p) \<noteq> []"
  shows "register_all h eventName regs
         = h\<lparr>callbacks := (callbacks h)(ev \<mapsto> registration_order (ps @ regs))\<rparr>"
proof -
  have "foldl (\<lambda>ps p. obj_set (fst p) (snd p) ps) ps regs
        = foldl (\<lambda>ps p. obj_set (fst p) (snd p) ps) (foldl (\<lambda>ps p. obj_set (fst p) (snd p) ps) [] ps) regs"
    using assms(3) by (simp add: obj_set_all registration_order_distinct)
  also have "\<dots> = registration_order (ps @ regs)"
    by (simp add: obj_set_all[symmetric])
  finally show ?thesis using register_all_any[OF assms(1,2,4)] by simp
qed

lemma registration_order_keys: "fst ` set (registration_order regs) = fst ` set regs"
  by (simp add: registration_order_map first_ids_set image_image)

lemma obj_set_keys: "fst ` set (obj_set i f ps) = insert i (fst ` set ps)"
proof (induction ps)
  case Nil
  then show ?case by simp
next
  case (Cons p ps)
  obtain k v where p: "p = (k, v)" by (cases p)
  show ?case
  proof (cases "k = i")
    case True
    with p show ?thesis by simp
  next
    case False
    with p Cons show ?thesis by (simp add: insert_commute)
  qed
qed

lemma obj_set_distinct: "distinct (map fst ps) \<Longrightarrow> distinct (map fst (obj_set i f ps))"
proof (induction ps)
  case Nil
  then show ?case by simp
next
  case (Cons p ps)
  obtain k v where p: "p = (k, v)" by (cases p)
  show ?case
  proof (cases "k = i")
    case True
    with Cons.prems p show ?thesis by simp
  next
    case False
    from Cons.prems p have "k \<notin> fst ` set ps" by simp
    with False have "k \<notin> fst ` set (obj_set i f ps)" by (simp add: obj_set_keys)
    moreover from Cons have "distinct (map fst (obj_set i f ps))" by simp
    ultimately show ?thesis using False p by simp
  qed
qed

lemma obj_delete_distinct: "distinct (map fst ps) \<Longrightarrow> distinct (map fst (obj_delete i ps))"
  by (simp add: obj_delete_def distinct_map_filter)

section \<open>The structure of an emission\<close>

declare emit.simps [simp del] call_logger.simps [simp del]

lemma caught_simps [simp]:
  "caught [] = []"
  "caught ((f, a, Some e) # cs) = e # caught cs"
  "caught ((f, a, None) # cs) = caught cs"
  by (simp_all add: caught_def List.map_filter_simps)

lemma forEach_calls:
  "forEach n prog ev cbs data h = Some (errs, h', evs) \<Longrightarrow>
   map fst (listener_calls evs) = cbs \<and>
   map (\<lambda>c. fst (snd c)) (listener_calls evs) = map (\<lambda>f. [data]) cbs \<and>
   caught (listener_calls evs) = errs \<and>
   error_reports evs = map (Pair ev) errs \<and>
   logger_calls evs = []"
proof (induction cbs arbitrary: h errs h' evs)
  case Nil
  then show ?case by simp
next
  case (Cons cb cbs)
  from Cons.prems obtain r h1 cevs where c: "call_fn n prog cb [data] h = Some (r, h1, cevs)"
    by (auto split: option.splits)
  from Cons.prems c obtain errs2 evs2 where f: "forEach n prog ev cbs data h1 = Some (errs2, h', evs2)"
    by (auto split: option.splits sum.splits)
  note IH = Cons.IH[OF f]
  show ?case
  proof (cases r)
    case (Inl e)
    with Cons.prems c f have "errs = e # errs2"
      "evs = Invoked AsListener cb [data] cevs (Some e) # ConsoleErrorListener ev e # evs2"
      by auto
    with IH show ?thesis by simp
  next
    case (Inr u)
    with Cons.prems c f have "errs = errs2" "evs = Invoked AsListener cb [data] cevs None # evs2"
      by auto
    with IH show ?thesis by simp
  qed
qed

lemma forEach_total:
  "\<forall>f \<in> set cbs. \<forall>hx. call_fn n prog f [data] hx \<noteq> None \<Longrightarrow>
   forEach n prog ev cbs data h \<noteq> None"
proof (induction cbs arbitrary: h)
  case Nil
  then show ?case by simp
next
  case (Cons cb cbs)
  from Cons.prems obtain r h1 cevs where c: "call_fn n prog cb [data] h = Some (r, h1, cevs)"
    by (metis list.set_intros(1) not_None_eq prod_cases3)
  from Cons.prems have "forEach n prog ev cbs data h1 \<noteq> None"
    by (intro Cons.IH) simp
  then obtain errs h2 evs2 where "forEach n prog ev cbs data h1 = Some (errs, h2, evs2)"
    by (metis not_None_eq prod_cases3)
  with c show ?case by (cases r) simp_all
qed

lemma call_logger_events:
  "call_logger n prog h ev data = Some (r, h1, evs) \<Longrightarrow>
   listener_calls evs = [] \<and> error_reports evs = [] \<and>
   logger_calls evs = (if debug_enabled h ev then [(logger h, [VStr ev, data])] else [])"
  by (auto simp: call_logger.simps split: if_splits option.splits)

lemma emit_invalid:
  "valid_event h eventName = None \<Longrightarrow>
   emit n prog h eventName data = Some (Inl (not_registered h eventName), h, [])"
  by (simp add: emit.simps)

lemma emit_returns:
  assumes "valid_event h eventName = Some ev" "callbacks h ev = Some ps"
    and "emit n prog h eventName data = Some (Inr v, h', evs)"
  obtains h1 evs1 errs evs2 where
    "call_logger n prog h ev data = Some (Inr (), h1, evs1)"
    "forEach n prog ev (object_values ps) data h1 = Some (errs, h', evs2)"
    "v = RBool (object_values ps \<noteq> [])"
    "evs = evs1 @ evs2 @ (if errs \<noteq> [] \<and> debug_enabled h' ev then [ConsoleErrorCount (length errs) ev] else [])"
  using assms by (auto simp: emit.simps split: option.splits sum.splits)

lemma emit_raises:
  assumes "valid_event h eventName = Some ev" "callbacks h ev = Some ps"
    and "emit n prog h eventName data = Some (Inl e, h', evs)"
  shows "call_logger n prog h ev data = Some (Inl e, h', evs)"
  using assms by (auto simp: emit.simps split: option.splits sum.splits)

lemma emit_completes:
  assumes "valid_event h eventName = Some ev" "callbacks h ev = Some ps"
    and "call_logger n prog h ev data = Some (Inr (), h1, evs1)"
    and "forEach n prog ev (object_values ps) data h1 = Some (errs, h2, evs2)"
  shows "emit n prog h eventName data =
         Some (Inr (RBool (object_values ps \<noteq> [])), h2,
               evs1 @ evs2 @ (if errs \<noteq> [] \<and> debug_enabled h2 ev then [ConsoleErrorCount (length errs) ev] else []))"
  using assms by (simp add: emit.simps)

text \<open>
  The loop ends in the state of \<open>after_calls\<close>, and it finishes exactly if each call, made
  in the state the loop has reached, finishes: a listener that throws does not end it.
\<close>

lemma forEach_after:
  "forEach n prog ev cbs data h = Some (errs, h', evs) \<Longrightarrow> after_calls n prog cbs data h = Some h'"
proof (induction cbs arbitrary: h errs evs)
  case Nil
  then show ?case by simp
next
  case (Cons cb cbs)
  from Cons.prems obtain r h1 cevs where c: "call_fn n prog cb [data] h = Some (r, h1, cevs)"
    by (auto split: option.splits)
  from Cons.prems c obtain errs2 evs2 where f: "forEach n prog ev cbs data h1 = Some (errs2, h', evs2)"
    by (auto split: option.splits sum.splits)
  from Cons.IH[OF f] c show ?case by simp
qed

lemma forEach_finishes:
  "forEach n prog ev cbs data h \<noteq> None \<longleftrightarrow>
   (\<forall>(f, hx) \<in> set (call_states n prog cbs data h). call_fn n prog f [data] hx \<noteq> None)"
proof (induction cbs arbitrary: h)
  case Nil
  then show ?case by simp
next
  case (Cons cb cbs)
  show ?case
  proof (cases "call_fn n prog cb [data] h")
    case None
    then show ?thesis by simp
  next
    case (Some res)
    then obtain r h1 cevs where c: "call_fn n prog cb [data] h = Some (r, h1, cevs)"
      by (cases res) auto
    have "forEach n prog ev (cb # cbs) data h \<noteq> None \<longleftrightarrow> forEach n prog ev cbs data h1 \<noteq> None"
      using c by (auto split: option.splits sum.splits)
    with Cons.IH[of h1] c show ?thesis by simp
  qed
qed

lemma emit_finishes:
  assumes "valid_event h eventName = Some ev" and "callbacks h ev = Some ps"
  shows "emit n prog h eventName data \<noteq> None \<longleftrightarrow>
         (\<exists>rl h1 evs1. call_logger n prog h ev data = Some (rl, h1, evs1)
            \<and> (rl = Inr () \<longrightarrow>
                 (\<forall>(f, hx) \<in> set (call_states n prog (object_values ps) data h1).
                    call_fn n prog f [data] hx \<noteq> None)))"
proof (cases "call_logger n prog h ev data")
  case None
  with assms show ?thesis by (simp add: emit.simps)
next
  case (Some res)
  then obtain rl h1 evs1 where l: "call_logger n prog h ev data = Some (rl, h1, evs1)"
    by (cases res) auto
  show ?thesis
  proof (cases rl)
    case (Inl e)
    with assms l show ?thesis by (simp add: emit.simps)
  next
    case (Inr u)
    have a: "emit n prog h eventName data \<noteq> None \<longleftrightarrow> forEach n prog ev (object_values ps) data h1 \<noteq> None"
      using assms l Inr by (auto simp: emit.simps split: option.splits)
    have b: "forEach n prog ev (object_values ps) data h1 \<noteq> None \<longleftrightarrow>
             (\<forall>(f, hx) \<in> set (call_states n prog (object_values ps) data h1).
                    call_fn n prog f [data] hx \<noteq> None)"
      by (rule forEach_finishes)
    have c: "(\<exists>rl h1 evs1. call_logger n prog h ev data = Some (rl, h1, evs1)
            \<and> (rl = Inr () \<longrightarrow>
                 (\<forall>(f, hx) \<in> set (call_states n prog (object_values ps) data h1).
                    call_fn n prog f [data] hx \<noteq> None)))
          \<longleftrightarrow> (\<forall>(f, hx) \<in> set (call_states n prog (object_values ps) data h1).
                    call_fn n prog f [data] hx \<noteq> None)"
      unfolding l Inr by simp
    from a b c show ?thesis by blast
  qed
qed

section \<open>Every run keeps the hub well-formed\<close>

lemma kept_refl: "wf_hub h \<Longrightarrow> kept h h"
  by (simp add: kept_def)

lemma kept_trans: "kept h h1 \<Longrightarrow> kept h1 h2 \<Longrightarrow> kept h h2"
  by (simp add: kept_def)

lemma valid_event_SomeD: "valid_event h v = Some ev \<Longrightarrow> v = VStr ev \<and> ev \<in> set (validEvents h)"
  by (cases v) (auto split: if_splits)

lemma on_kept: "wf_hub h \<Longrightarrow> on h c i f = (r, h') \<Longrightarrow> kept h h'"
  by (auto simp: on_def kept_def wf_hub_def split: option.splits jsval.splits if_splits)

lemma once_kept: "wf_hub h \<Longrightarrow> once h c i f = (r, h') \<Longrightarrow> kept h h'"
proof -
  assume wf: "wf_hub h" and o: "once h c i f = (r, h')"
  show ?thesis
  proof (cases "valid_event h c")
    case None
    with wf o show ?thesis by (simp add: once_def kept_def)
  next
    case (Some ev)
    show ?thesis
    proof (cases f)
      case (VFun g)
      let ?h1 = "h\<lparr>onceWrappers := weakmap_set g (OnceWrapper ev i g) (onceWrappers h)\<rparr>"
      have wf1: "wf_hub ?h1" using wf by (simp add: wf_hub_def)
      from o Some VFun have "on ?h1 c i (VFun (OnceWrapper ev i g)) = (r, h')"
        by (simp add: once_def Let_def)
      from on_kept[OF wf1 this] show ?thesis by (simp add: kept_def)
    qed (use wf o Some in \<open>auto simp: once_def kept_def\<close>)
  qed
qed

lemma off_kept: "wf_hub h \<Longrightarrow> off h c i = (r, h') \<Longrightarrow> kept h h'"
  by (auto simp: off_def kept_def wf_hub_def split: option.splits jsval.splits if_splits)

lemma clear_all_defined:
  "(foldl (\<lambda>m name. m(name \<mapsto> [])) m names) ev \<noteq> None \<longleftrightarrow> m ev \<noteq> None \<or> ev \<in> set names"
  by (induction names arbitrary: m) auto

lemma clear_all_defined':
  "ev \<in> set names \<Longrightarrow> \<exists>y. (foldl (\<lambda>m name. m(name \<mapsto> [])) m names) ev = Some y"
  using clear_all_defined[of m names ev] by auto

lemma clear_kept: "wf_hub h \<Longrightarrow> clear h c = (r, h') \<Longrightarrow> kept h h'"
  by (auto simp: clear_def kept_def wf_hub_def clear_all_defined' split: option.splits if_splits)

lemma setDebug_kept: "wf_hub h \<Longrightarrow> setDebug h d = (r, h') \<Longrightarrow> kept h h'"
  by (auto simp: setDebug_def kept_def wf_hub_def split: option.splits jsval.splits if_splits)

lemma setLogger_kept: "wf_hub h \<Longrightarrow> setLogger h f = (r, h') \<Longrightarrow> kept h h'"
  by (auto simp: setLogger_def kept_def wf_hub_def split: jsval.splits)

lemma simple_stmt_kept: "wf_hub h \<Longrightarrow> simple_stmt s h = (r, h') \<Longrightarrow> kept h h'"
  by (cases s)
     (auto split: prod.splits dest: on_kept once_kept off_kept clear_kept setDebug_kept setLogger_kept
           simp: kept_refl)

lemma kept_wf: "kept h h' \<Longrightarrow> wf_hub h'"
  by (simp add: kept_def)

lemma run_kept:
  shows "call_fn n prog f args h = Some (r, h', evs) \<Longrightarrow> wf_hub h \<Longrightarrow> kept h h'"
    and "exec n prog ss h = Some (r, h', evs) \<Longrightarrow> wf_hub h \<Longrightarrow> kept h h'"
    and "exec_stmt n prog s h = Some (r, h', evs) \<Longrightarrow> wf_hub h \<Longrightarrow> kept h h'"
    and "emit n prog h eventName data = Some (r2, h', evs) \<Longrightarrow> wf_hub h \<Longrightarrow> kept h h'"
    and "call_logger n prog h ev data = Some (r, h', evs) \<Longrightarrow> wf_hub h \<Longrightarrow> kept h h'"
    and "forEach n prog ev cbs data h = Some (errs, h', evs) \<Longrightarrow> wf_hub h \<Longrightarrow> kept h h'"
proof (induction n prog f args h and n prog ss h and n prog s h and n prog h eventName data
         and n prog h ev data and n prog ev cbs data h
       arbitrary: r h' evs and r h' evs and r h' evs and r2 h' evs and r h' evs and errs h' evs
       rule: call_fn_exec_exec_stmt_emit_call_logger_forEach.induct)
  case (1 prog f args h)
  then show ?case by simp
next
  case (2 n prog args h)
  then show ?case by (auto simp: kept_refl)
next
  case (3 n prog k args h)
  then show ?case by auto
next
  case (4 n prog ev ident cb args h)
  from "4.prems" obtain rc h1 cevs where c: "call_fn n prog cb [arg 0 args] h = Some (rc, h1, cevs)"
    by (auto split: option.splits)
  from "4.IH"[OF c "4.prems"(2)] have k1: "kept h h1" .
  show ?case
  proof (cases rc)
    case (Inl e)
    with "4.prems" c k1 show ?thesis by auto
  next
    case (Inr u)
    with "4.prems" c obtain ro where "off h1 (VStr ev) ident = (ro, h')"
      by (auto split: prod.splits)
    from off_kept[OF kept_wf[OF k1] this] k1 show ?thesis by (rule_tac kept_trans)
  qed
next
  case (5 n prog h)
  then show ?case by (auto simp: kept_refl)
next
  case (6 n prog s ss h)
  from "6.prems" obtain rs h1 evs1 where s: "exec_stmt n prog s h = Some (rs, h1, evs1)"
    by (auto split: option.splits)
  from "6.IH"(1)[OF s "6.prems"(2)] have k1: "kept h h1" .
  show ?case
  proof (cases rs)
    case (Inl e)
    with "6.prems" s k1 show ?thesis by auto
  next
    case (Inr u)
    with "6.prems" s obtain evs2 where e: "exec n prog ss h1 = Some (r, h', evs2)"
      by (auto split: option.splits)
    obtain a b where ab: "(h1, evs1) = (a, b)" "a = h1" by simp
    from "6.IH"(2)[OF s _ Inr _ e kept_wf[OF k1]] k1 show ?thesis
      by (auto intro: kept_trans)
  qed
next
  case (7 n prog c d h)
  then show ?case by (auto split: option.splits)
next
  case (9 n prog h eventName data)
  show ?case
  proof (cases "valid_event h eventName")
    case None
    with "9.prems" show ?thesis by (auto simp: emit.simps kept_refl)
  next
    case (Some ev)
    show ?thesis
    proof (cases "callbacks h ev")
      case None
      with Some "9.prems" show ?thesis by (auto simp: emit.simps kept_refl)
    next
      case (Some ps)
      note ps = this
      from "9.prems" \<open>valid_event h eventName = Some ev\<close> ps
      obtain rl h1 evs1 where l: "call_logger n prog h ev data = Some (rl, h1, evs1)"
        by (auto simp: emit.simps split: option.splits)
      from "9.IH"(1)[OF \<open>valid_event h eventName = Some ev\<close> ps l "9.prems"(2)] have k1: "kept h h1" .
      show ?thesis
      proof (cases rl)
        case (Inl e)
        with "9.prems" \<open>valid_event h eventName = Some ev\<close> ps l k1 show ?thesis
          by (auto simp: emit.simps)
      next
        case (Inr u)
        with "9.prems" \<open>valid_event h eventName = Some ev\<close> ps l
        obtain errs evs2 where f: "forEach n prog ev (object_values ps) data h1 = Some (errs, h', evs2)"
          by (auto simp: emit.simps split: option.splits)
        from "9.IH"(2)[OF \<open>valid_event h eventName = Some ev\<close> ps l _ Inr _ f kept_wf[OF k1]] k1
        show ?thesis by (auto intro: kept_trans)
      qed
    qed
  qed
next
  case (10 n prog h ev data)
  then show ?case by (auto simp: call_logger.simps kept_refl split: if_splits option.splits)
next
  case (11 n prog ev data h)
  then show ?case by (auto simp: kept_refl)
next
  case (12 n prog ev cb cbs data h)
  from "12.prems" obtain rc h1 cevs where c: "call_fn n prog cb [data] h = Some (rc, h1, cevs)"
    by (auto split: option.splits)
  from "12.IH"(1)[OF c "12.prems"(2)] have k1: "kept h h1" .
  from "12.prems" c obtain errs2 evs2 where f: "forEach n prog ev cbs data h1 = Some (errs2, h', evs2)"
    by (auto split: option.splits sum.splits)
  from "12.IH"(2)[OF c _ _ f kept_wf[OF k1]] k1 show ?case by (auto intro: kept_trans)
qed (auto split: prod.splits intro: on_kept once_kept off_kept clear_kept setDebug_kept setLogger_kept kept_refl)

section \<open>Evaluation and construction\<close>

text \<open>The unfolding rules with which a concrete run is evaluated.\<close>

lemmas hub_ops = on_def once_def off_def clear_def listenerCount_def listeners_def setDebug_def
  setLogger_def not_registered_def debug_enabled_def new_hub_def register_all_def
  object_values_def object_keys_def own_properties_def obj_delete_def weakmap_set_def
  trim_def is_ws_def is_digit_def digits_value_def arg_def discard_def thrown_def
  emit.simps call_logger.simps

lemma init_callbacks_strings:
  "init_callbacks (map VStr names) m = Inr (\<lambda>ev. if ev \<in> set names then Some [] else m ev)"
proof (induction names arbitrary: m)
  case Nil
  then show ?case by simp
next
  case (Cons s names)
  have "(\<lambda>ev. if ev \<in> set names then Some [] else (m(s \<mapsto> [])) ev)
        = (\<lambda>ev. if ev \<in> set (s # names) then Some [] else m ev)"
    by (auto simp: fun_eq_iff)
  with Cons show ?case by simp
qed

lemma strings_of_strings [simp]: "strings_of (map VStr names) = names"
  by (induction names) simp_all

lemma new_hub_created:
  "names \<noteq> [] \<Longrightarrow> distinct names \<Longrightarrow>
   createNexusHub (VArr a (map VStr names)) = Inr (new_hub names)"
proof -
  assume ne: "names \<noteq> []" and d: "distinct names"
  from d have dm: "distinct (map VStr names)" by (simp add: distinct_map inj_on_def)
  have "length (remdups (map VStr names)) = length (map VStr names)"
    by (simp only: distinct_remdups_id[OF dm])
  with ne show ?thesis by (simp add: init_callbacks_strings new_hub_def)
qed

lemma listeners_of:
  "valid_event h eventName = Some ev \<Longrightarrow> callbacks h ev = Some ps \<Longrightarrow>
   listeners h eventName = Inr (RFuns (object_values ps))"
  by (cases eventName) (auto simp: listeners_def split: if_splits)

lemma emit_listener_calls:
  assumes "valid_event h eventName = Some ev" "callbacks h ev = Some ps"
    and "emit n prog h eventName data = Some (Inr v, h', evs)"
  shows "map fst (listener_calls evs) = object_values ps"
    and "map (\<lambda>c. fst (snd c)) (listener_calls evs) = map (\<lambda>f. [data]) (object_values ps)"
proof -
  from assms obtain h1 evs1 errs evs2 where
    l: "call_logger n prog h ev data = Some (Inr (), h1, evs1)" and
    f: "forEach n prog ev (object_values ps) data h1 = Some (errs, h', evs2)" and
    e: "evs = evs1 @ evs2 @ (if errs \<noteq> [] \<and> debug_enabled h' ev then [ConsoleErrorCount (length errs) ev] else [])"
    by (rule emit_returns)
  have app: "\<And>xs ys. listener_calls (xs @ ys) = listener_calls xs @ listener_calls ys"
  proof -
    fix xs ys :: "event list"
    show "listener_calls (xs @ ys) = listener_calls xs @ listener_calls ys"
      by (induction xs rule: listener_calls.induct) simp_all
  qed
  from call_logger_events[OF l] forEach_calls[OF f] e
  show "map fst (listener_calls evs) = object_values ps"
    and "map (\<lambda>c. fst (snd c)) (listener_calls evs) = map (\<lambda>f. [data]) (object_values ps)"
    by (simp_all add: app)
qed

section \<open>C1: the order of dispatch and of \<^verbatim>\<open>listeners\<close>\<close>

text \<open>
  C1 (as amended).  Take a declared event whose listener object \<open>ps\<close> has distinct ids, and
  register further listeners \<open>regs\<close> with \<^verbatim>\<open>on\<close> under non-blank ids.  Then
  \<^verbatim>\<open>listeners(eventName)\<close> returns, and an emission that returns has called once each and
  in this order, the callbacks of \<^verbatim>\<open>Object.values\<close> of the listener object: first those
  whose id is an array index, by ascending numeric value of the id, then all others in
  the order of registration of their ids (an id registered again keeps its place and
  gets the new callback).  If no id is an array index this is the order of registration,
  which for pairwise distinct ids is the order of the \<^verbatim>\<open>on\<close> calls.
\<close>

theorem listener_order:
  assumes "valid_event h eventName = Some ev" and "callbacks h ev = Some ps"
    and "distinct (map fst ps)"
    and "\<forall>p \<in> set regs. trim (fst p) \<noteq> []"
    and "emit n prog (register_all h eventName regs) eventName data = Some (Inr v, h', evs)"
  shows "listeners (register_all h eventName regs) eventName
           = Inr (RFuns (object_values (registration_order (ps @ regs))))
       \<and> map fst (listener_calls evs) = object_values (registration_order (ps @ regs))
       \<and> object_values (registration_order (ps @ regs)) =
           map snd (sort_key (\<lambda>p. digits_value (fst p))
                      (filter (\<lambda>p. is_array_index (fst p)) (registration_order (ps @ regs))))
           @ map snd (filter (\<lambda>p. \<not> is_array_index (fst p)) (registration_order (ps @ regs)))
       \<and> ((\<forall>p \<in> set (ps @ regs). \<not> is_array_index (fst p)) \<longrightarrow>
            object_values (registration_order (ps @ regs)) = map snd (registration_order (ps @ regs)))
       \<and> (distinct (map fst (ps @ regs)) \<longrightarrow> registration_order (ps @ regs) = ps @ regs)"
proof -
  let ?h = "register_all h eventName regs"
  let ?X = "registration_order (ps @ regs)"
  have reg: "?h = h\<lparr>callbacks := (callbacks h)(ev \<mapsto> ?X)\<rparr>"
    using assms(1-4) by (rule register_all_order)
  have v: "valid_event ?h eventName = Some ev" using assms(1) by (simp add: reg)
  have c: "callbacks ?h ev = Some ?X" by (simp add: reg)
  have 1: "listeners ?h eventName = Inr (RFuns (object_values ?X))"
    using v c by (rule listeners_of)
  have 2: "map fst (listener_calls evs) = object_values ?X"
    using v c assms(5) by (rule emit_listener_calls)
  have 3: "object_values ?X =
           map snd (sort_key (\<lambda>p. digits_value (fst p)) (filter (\<lambda>p. is_array_index (fst p)) ?X))
           @ map snd (filter (\<lambda>p. \<not> is_array_index (fst p)) ?X)"
    by (simp add: object_values_def own_properties_def)
  have 4: "(\<forall>p \<in> set (ps @ regs). \<not> is_array_index (fst p)) \<longrightarrow> object_values ?X = map snd ?X"
  proof
    assume a: "\<forall>p \<in> set (ps @ regs). \<not> is_array_index (fst p)"
    have "\<forall>p \<in> set ?X. \<not> is_array_index (fst p)"
    proof
      fix p assume "p \<in> set ?X"
      then have "fst p \<in> fst ` set (ps @ regs)"
        using registration_order_keys[of "ps @ regs"] by blast
      then obtain q where "q \<in> set (ps @ regs)" "fst q = fst p" by force
      with a show "\<not> is_array_index (fst p)" by metis
    qed
    from own_properties_no_index[OF this] show "object_values ?X = map snd ?X"
      by (simp add: object_values_def)
  qed
  have 5: "distinct (map fst (ps @ regs)) \<longrightarrow> ?X = ps @ regs"
    using registration_order_distinct[of "ps @ regs"] by blast
  from 1 2 3 4 5 show ?thesis by blast
qed

text \<open>
  C1 as stated fails for an id that looks like a non-negative integer: after
  \<^verbatim>\<open>on('a','b',f1)\<close> and \<^verbatim>\<open>on('a','1',f2)\<close>, both \<^verbatim>\<open>listeners('a')\<close> and the dispatch
  order of \<^verbatim>\<open>emit('a')\<close> are \<open>f2, f1\<close>, not the order of registration.
\<close>

theorem listener_order_counterexample:
  "createNexusHub (VArr 0 [VStr ''a'']) = Inr (new_hub [''a''])
   \<and> listeners (register_all (new_hub [''a'']) (VStr ''a'') [(''b'', UserFn 1), (''1'', UserFn 2)]) (VStr ''a'')
       = Inr (RFuns [UserFn 2, UserFn 1])
   \<and> called (emit (Suc 0) idle
               (register_all (new_hub [''a'']) (VStr ''a'') [(''b'', UserFn 1), (''1'', UserFn 2)])
               (VStr ''a'') VUndefined)
       = [UserFn 2, UserFn 1]"
  by (simp add: new_hub_created[of "[''a'']" 0, simplified] hub_ops called_def idle_def)

text \<open>
  The amended statement at ids \<open>x\<close>, \<open>10\<close>, \<open>9\<close> and \<open>x\<close> again: the order is \<open>9\<close>, \<open>10\<close>,
  \<open>x\<close>, with the last callback of \<open>x\<close>.
\<close>

theorem listener_order_witness:
  "listeners (register_all (new_hub [''a'']) (VStr ''a'')
                [(''x'', UserFn 1), (''10'', UserFn 2), (''9'', UserFn 3), (''x'', UserFn 4)]) (VStr ''a'')
     = Inr (RFuns [UserFn 3, UserFn 2, UserFn 4])
   \<and> called (emit (Suc 0) idle
               (register_all (new_hub [''a'']) (VStr ''a'')
                  [(''x'', UserFn 1), (''10'', UserFn 2), (''9'', UserFn 3), (''x'', UserFn 4)])
               (VStr ''a'') (VNum 7))
     = [UserFn 3, UserFn 2, UserFn 4]"
proof -
  let ?h = "new_hub [''a'']"
  let ?regs = "[(''x'', UserFn 1), (''10'', UserFn 2), (''9'', UserFn 3), (''x'', UserFn 4)]"
  let ?h1 = "register_all ?h (VStr ''a'') ?regs"
  have v: "valid_event ?h (VStr ''a'') = Some ''a''" by (simp add: new_hub_def)
  have c: "callbacks ?h ''a'' = Some []" by (simp add: new_hub_def)
  have d: "distinct (map fst ([] :: func obj))" by simp
  have t: "\<forall>p \<in> set ?regs. trim (fst p) \<noteq> []" by (simp add: trim_def is_ws_def)
  have e: "emit (Suc 0) idle ?h1 (VStr ''a'') (VNum 7) =
           Some (Inr (RBool True), ?h1,
                 [Invoked AsListener (UserFn 3) [VNum 7] [] None,
                  Invoked AsListener (UserFn 2) [VNum 7] [] None,
                  Invoked AsListener (UserFn 4) [VNum 7] [] None])"
    by (simp add: hub_ops idle_def)
  have o: "object_values (registration_order ([] @ ?regs)) = [UserFn 3, UserFn 2, UserFn 4]"
    by (simp add: hub_ops registration_order_def first_ids_def List.map_filter_simps)
  from listener_order[OF v c d t e] show ?thesis
    by (simp only: o e called_def option.case prod.case)
qed

section \<open>Emission: what it calls, reports and returns\<close>


lemma valid_event_logger_upd [simp]: "valid_event (h\<lparr>logger := lg\<rparr>) v = valid_event h v"
  by (cases v) auto

lemma debug_enabled_logger_upd [simp]: "debug_enabled (h\<lparr>logger := lg\<rparr>) ev = debug_enabled h ev"
  by (simp add: debug_enabled_def)

lemma listener_calls_append: "listener_calls (xs @ ys) = listener_calls xs @ listener_calls ys"
  by (induction xs rule: listener_calls.induct) simp_all

lemma error_reports_append: "error_reports (xs @ ys) = error_reports xs @ error_reports ys"
  by (induction xs rule: error_reports.induct) simp_all

lemma logger_calls_append: "logger_calls (xs @ ys) = logger_calls xs @ logger_calls ys"
  by (induction xs rule: logger_calls.induct) simp_all

lemma emit_total:
  assumes v: "valid_event h eventName = Some ev" and c: "callbacks h ev = Some ps"
    and l: "call_logger n prog h ev data = Some (Inr (), h1, evs1)"
    and t: "\<forall>f \<in> set (object_values ps). \<forall>hx. call_fn n prog f [data] hx \<noteq> None"
  shows "\<exists>h' evs. emit n prog h eventName data = Some (Inr (RBool (object_values ps \<noteq> [])), h', evs)
           \<and> map fst (listener_calls evs) = object_values ps
           \<and> error_reports evs = map (Pair ev) (caught (listener_calls evs))
           \<and> logger_calls evs = (if debug_enabled h ev then [(logger h, [VStr ev, data])] else [])"
proof -
  from forEach_total[OF t] obtain errs h2 evs2 where
    f: "forEach n prog ev (object_values ps) data h1 = Some (errs, h2, evs2)"
    by (metis not_None_eq prod_cases3)
  let ?tail = "if errs \<noteq> [] \<and> debug_enabled h2 ev then [ConsoleErrorCount (length errs) ev] else []"
  have e: "emit n prog h eventName data =
           Some (Inr (RBool (object_values ps \<noteq> [])), h2, evs1 @ evs2 @ ?tail)"
    using v c l f by (rule emit_completes)
  have "map fst (listener_calls (evs1 @ evs2 @ ?tail)) = object_values ps"
    using call_logger_events[OF l] forEach_calls[OF f] by (simp add: listener_calls_append)
  moreover have "error_reports (evs1 @ evs2 @ ?tail) = map (Pair ev) (caught (listener_calls (evs1 @ evs2 @ ?tail)))"
    using call_logger_events[OF l] forEach_calls[OF f]
    by (simp add: listener_calls_append error_reports_append)
  moreover have "logger_calls (evs1 @ evs2 @ ?tail) = (if debug_enabled h ev then [(logger h, [VStr ev, data])] else [])"
    using call_logger_events[OF l] forEach_calls[OF f] by (simp add: logger_calls_append)
  ultimately show ?thesis using e by blast
qed

lemma listenerCount_of:
  "valid_event h eventName = Some ev \<Longrightarrow> callbacks h ev = Some ps \<Longrightarrow>
   listenerCount h eventName = Inr (RNum (length ps))"
  by (cases eventName) (auto simp: listenerCount_def object_keys_def own_properties_length split: if_splits)

lemma object_values_empty: "object_values ps = [] \<longleftrightarrow> ps = []"
  using own_properties_length[of ps] by (auto simp: object_values_def)

lemma called_Some: "called (Some (r, h, evs)) = map fst (listener_calls evs)"
  by (simp add: called_def)

lemma state_of_Some: "state_of (Some (r, h', evs)) h = h'"
  by (simp add: state_of_def)




section \<open>C3: dispatch over the snapshot\<close>

text \<open>
  C3.  On a declared event of a well-formed hub, whatever the listeners and the logger do
  during an emission (any program: calls of \<^verbatim>\<open>on\<close>, \<^verbatim>\<open>once\<close>, \<^verbatim>\<open>off\<close>, \<^verbatim>\<open>clear\<close>,
  nested \<^verbatim>\<open>emit\<close>).  An emission that returns a value has called exactly the callbacks
  that were registered on the event when it was called, in the order of the snapshot,
  each with the payload; the state it leaves is the state reached by these calls, made
  one after the other from the state the logger call left, so what the listeners changed
  is in it; and every later emission on the event from that state that returns a value
  calls exactly the callbacks registered in that state.  An emission that throws has
  called no listener: it is the logger that threw.  An emission finishes exactly if the
  logger call finishes and, when that returns, each listener's call, made in the state
  the loop has reached, finishes.
\<close>

theorem dispatch_over_snapshot:
  assumes "wf_hub h" and "valid_event h eventName = Some ev"
  shows "\<exists>ps. callbacks h ev = Some ps
       \<and> (\<forall>v h' evs. emit n prog h eventName data = Some (Inr v, h', evs) \<longrightarrow>
             map fst (listener_calls evs) = object_values ps
           \<and> map (\<lambda>c. fst (snd c)) (listener_calls evs) = map (\<lambda>f. [data]) (object_values ps)
           \<and> (\<exists>h1 evs1. call_logger n prog h ev data = Some (Inr (), h1, evs1)
                \<and> after_calls n prog (object_values ps) data h1 = Some h')
           \<and> (\<exists>ps'. valid_event h' eventName = Some ev \<and> callbacks h' ev = Some ps'
                \<and> (\<forall>m d2 v2 h'' evs2. emit m prog h' eventName d2 = Some (Inr v2, h'', evs2) \<longrightarrow>
                      map fst (listener_calls evs2) = object_values ps')))
       \<and> (\<forall>e h' evs. emit n prog h eventName data = Some (Inl e, h', evs) \<longrightarrow>
             listener_calls evs = [] \<and> call_logger n prog h ev data = Some (Inl e, h', evs))
       \<and> (emit n prog h eventName data \<noteq> None \<longleftrightarrow>
            (\<exists>rl h1 evs1. call_logger n prog h ev data = Some (rl, h1, evs1)
               \<and> (rl = Inr () \<longrightarrow>
                    (\<forall>(f, hx) \<in> set (call_states n prog (object_values ps) data h1).
                       call_fn n prog f [data] hx \<noteq> None))))"
proof -
  from assms(2) have ev: "eventName = VStr ev" "ev \<in> set (validEvents h)"
    by (auto dest: valid_event_SomeD)
  with assms(1) have "callbacks h ev \<noteq> None" by (simp add: wf_hub_def)
  then obtain ps where ps: "callbacks h ev = Some ps" by blast
  have A: "map fst (listener_calls evs) = object_values ps
           \<and> map (\<lambda>c. fst (snd c)) (listener_calls evs) = map (\<lambda>f. [data]) (object_values ps)
           \<and> (\<exists>h1 evs1. call_logger n prog h ev data = Some (Inr (), h1, evs1)
                \<and> after_calls n prog (object_values ps) data h1 = Some h')
           \<and> (\<exists>ps'. valid_event h' eventName = Some ev \<and> callbacks h' ev = Some ps'
                \<and> (\<forall>m d2 v2 h'' evs2. emit m prog h' eventName d2 = Some (Inr v2, h'', evs2) \<longrightarrow>
                      map fst (listener_calls evs2) = object_values ps'))"
    if e: "emit n prog h eventName data = Some (Inr v, h', evs)" for v h' evs
  proof -
    from assms(2) ps e obtain h1 evs1 errs evs2 where
      l: "call_logger n prog h ev data = Some (Inr (), h1, evs1)" and
      f: "forEach n prog ev (object_values ps) data h1 = Some (errs, h', evs2)"
      by (rule emit_returns)
    from run_kept(4)[OF e assms(1)] have k: "kept h h'" .
    then have v': "valid_event h' eventName = Some ev" using ev by (simp add: kept_def)
    from k ev have "callbacks h' ev \<noteq> None" by (simp add: kept_def wf_hub_def)
    then obtain ps' where ps': "callbacks h' ev = Some ps'" by blast
    have n: "\<forall>m d2 v2 h'' evs2. emit m prog h' eventName d2 = Some (Inr v2, h'', evs2) \<longrightarrow>
                      map fst (listener_calls evs2) = object_values ps'"
      using emit_listener_calls(1)[OF v' ps'] by blast
    have x: "\<exists>h1 evs1. call_logger n prog h ev data = Some (Inr (), h1, evs1)
                \<and> after_calls n prog (object_values ps) data h1 = Some h'"
      using l forEach_after[OF f] by (intro exI[of _ h1] exI[of _ evs1] conjI)
    have y: "\<exists>ps'. valid_event h' eventName = Some ev \<and> callbacks h' ev = Some ps'
                \<and> (\<forall>m d2 v2 h'' evs2. emit m prog h' eventName d2 = Some (Inr v2, h'', evs2) \<longrightarrow>
                      map fst (listener_calls evs2) = object_values ps')"
      using v' ps' n by (intro exI[of _ ps'] conjI)
    from emit_listener_calls[OF assms(2) ps e] x y
    show ?thesis by (intro conjI)
  qed
  have B: "listener_calls evs = [] \<and> call_logger n prog h ev data = Some (Inl e, h', evs)"
    if e: "emit n prog h eventName data = Some (Inl e, h', evs)" for e h' evs
  proof -
    from emit_raises[OF assms(2) ps e] have l: "call_logger n prog h ev data = Some (Inl e, h', evs)" .
    from call_logger_events[OF l] l show ?thesis by simp
  qed
  note C = emit_finishes[OF assms(2) ps, of n prog data]
  show ?thesis
  proof (rule exI[of _ ps], intro conjI allI impI)
    show "callbacks h ev = Some ps" by (rule ps)
  next
    fix v h' evs assume e: "emit n prog h eventName data = Some (Inr v, h', evs)"
    from A[OF e] show "map fst (listener_calls evs) = object_values ps" by (rule conjunct1)
    from A[OF e] show "map (\<lambda>c. fst (snd c)) (listener_calls evs) = map (\<lambda>f. [data]) (object_values ps)"
      by (rule conjunct2[THEN conjunct1])
    from A[OF e] show "\<exists>h1 evs1. call_logger n prog h ev data = Some (Inr (), h1, evs1)
                \<and> after_calls n prog (object_values ps) data h1 = Some h'"
      by (rule conjunct2[THEN conjunct2, THEN conjunct1])
    from A[OF e] show "\<exists>ps'. valid_event h' eventName = Some ev \<and> callbacks h' ev = Some ps'
                \<and> (\<forall>m d2 v2 h'' evs2. emit m prog h' eventName d2 = Some (Inr v2, h'', evs2) \<longrightarrow>
                      map fst (listener_calls evs2) = object_values ps')"
      by (rule conjunct2[THEN conjunct2, THEN conjunct2])
  next
    fix e h' evs assume e: "emit n prog h eventName data = Some (Inl e, h', evs)"
    from B[OF e] show "listener_calls evs = []" by (rule conjunct1)
    from B[OF e] show "call_logger n prog h ev data = Some (Inl e, h', evs)" by (rule conjunct2)
  next
    show "emit n prog h eventName data \<noteq> None \<longleftrightarrow>
            (\<exists>rl h1 evs1. call_logger n prog h ev data = Some (rl, h1, evs1)
               \<and> (rl = Inr () \<longrightarrow>
                    (\<forall>(f, hx) \<in> set (call_states n prog (object_values ps) data h1).
                       call_fn n prog f [data] hx \<noteq> None)))"
      by (rule C)
  qed
qed

text \<open>
  Listener \<open>x\<close> removes \<open>y\<close>, adds \<open>z\<close> and emits the same event again while it is called:
  the emission in flight still calls \<open>y\<close> and not \<open>z\<close> (the nested one calls \<open>x\<close> and \<open>z\<close>),
  the listeners afterwards are \<open>x\<close> and \<open>z\<close>, and the next emission calls these.
\<close>

theorem dispatch_over_snapshot_witness:
  "called (emit (Suc (Suc 0)) rewire two_listeners (VStr ''a'') VUndefined) = [UserFn 1, UserFn 2]
   \<and> listeners (state_of (emit (Suc (Suc 0)) rewire two_listeners (VStr ''a'') VUndefined) two_listeners)
        (VStr ''a'') = Inr (RFuns [UserFn 1, UserFn 3])
   \<and> called (emit (Suc (Suc 0)) rewire
               (state_of (emit (Suc (Suc 0)) rewire two_listeners (VStr ''a'') VUndefined) two_listeners)
               (VStr ''a'') (VNum 5))
       = [UserFn 1, UserFn 3]
   \<and> emit (Suc (Suc 0)) rewire two_listeners (VStr ''a'') VUndefined \<noteq> None"
proof -
  let ?h = "two_listeners"
  let ?e1 = "emit (Suc (Suc 0)) rewire ?h (VStr ''a'') VUndefined"
  let ?h1 = "state_of ?e1 ?h"
  let ?e2 = "emit (Suc (Suc 0)) rewire ?h1 (VStr ''a'') (VNum 5)"
  have wf: "wf_hub ?h" by (simp add: two_listeners_def hub_ops wf_hub_def)
  have v: "valid_event ?h (VStr ''a'') = Some ''a''" by (simp add: two_listeners_def hub_ops)
  have "\<exists>r evs. ?e1 = Some (Inr r, ?h1, evs)"
    by (simp add: two_listeners_def hub_ops rewire_def state_of_def)
  then obtain r1 evs1 where e1: "?e1 = Some (Inr r1, ?h1, evs1)" by blast
  have "\<exists>r h2 evs. ?e2 = Some (Inr r, h2, evs)"
    by (simp add: two_listeners_def hub_ops rewire_def state_of_def)
  then obtain r2 h2 evs2 where e2: "?e2 = Some (Inr r2, h2, evs2)" by blast
  have c: "callbacks ?h ''a'' = Some [(''x'', UserFn 1), (''y'', UserFn 2)]"
    by (simp add: two_listeners_def hub_ops)
  have c1: "callbacks ?h1 ''a'' = Some [(''x'', UserFn 1), (''z'', UserFn 3)]"
    by (simp add: two_listeners_def hub_ops rewire_def state_of_def)
  from dispatch_over_snapshot[OF wf v, of "Suc (Suc 0)" rewire VUndefined]
  obtain ps where
    p: "callbacks ?h ''a'' = Some ps" and
    A: "\<forall>v h' evs. ?e1 = Some (Inr v, h', evs) \<longrightarrow>
             map fst (listener_calls evs) = object_values ps
           \<and> map (\<lambda>c. fst (snd c)) (listener_calls evs) = map (\<lambda>f. [VUndefined]) (object_values ps)
           \<and> (\<exists>h1 evs1. call_logger (Suc (Suc 0)) rewire ?h ''a'' VUndefined = Some (Inr (), h1, evs1)
                \<and> after_calls (Suc (Suc 0)) rewire (object_values ps) VUndefined h1 = Some h')
           \<and> (\<exists>ps'. valid_event h' (VStr ''a'') = Some ''a'' \<and> callbacks h' ''a'' = Some ps'
                \<and> (\<forall>m d2 v2 h'' evs2. emit m rewire h' (VStr ''a'') d2 = Some (Inr v2, h'', evs2) \<longrightarrow>
                      map fst (listener_calls evs2) = object_values ps'))" and
    T: "?e1 \<noteq> None \<longleftrightarrow>
            (\<exists>rl h1 evs1. call_logger (Suc (Suc 0)) rewire ?h ''a'' VUndefined = Some (rl, h1, evs1)
               \<and> (rl = Inr () \<longrightarrow>
                    (\<forall>(f, hx) \<in> set (call_states (Suc (Suc 0)) rewire (object_values ps) VUndefined h1).
                       call_fn (Suc (Suc 0)) rewire f [VUndefined] hx \<noteq> None)))"
    by (elim exE conjE)
  from p c have ps: "ps = [(''x'', UserFn 1), (''y'', UserFn 2)]" by (simp only: option.inject)
  have ov: "object_values ps = [UserFn 1, UserFn 2]" by (simp add: ps hub_ops)
  from A[rule_format, OF e1] obtain ps' where
    a1: "map fst (listener_calls evs1) = object_values ps" and
    v1: "valid_event ?h1 (VStr ''a'') = Some ''a''" and
    p': "callbacks ?h1 ''a'' = Some ps'" and
    a2: "\<forall>m d2 v2 h'' evs2. emit m rewire ?h1 (VStr ''a'') d2 = Some (Inr v2, h'', evs2) \<longrightarrow>
                      map fst (listener_calls evs2) = object_values ps'"
    by (elim exE conjE)
  from p' c1 have ps': "ps' = [(''x'', UserFn 1), (''z'', UserFn 3)]" by (simp only: option.inject)
  have ov': "object_values ps' = [UserFn 1, UserFn 3]" by (simp add: ps' hub_ops)
  from a2[rule_format, OF e2] have a3: "map fst (listener_calls evs2) = object_values ps'" .
  have 1: "called ?e1 = [UserFn 1, UserFn 2]"
    using a1 by (simp only: arg_cong[OF e1, of called] called_Some ov)
  have 2: "listeners ?h1 (VStr ''a'') = Inr (RFuns [UserFn 1, UserFn 3])"
    using listeners_of[OF v1 p'] by (simp only: ov')
  have 3: "called ?e2 = [UserFn 1, UserFn 3]"
    using a3 by (simp only: arg_cong[OF e2, of called] called_Some ov')
  have lg: "call_logger (Suc (Suc 0)) rewire ?h ''a'' VUndefined = Some (Inr (), ?h, [])"
    by (simp add: two_listeners_def hub_ops)
  have fin: "\<forall>(f, hx) \<in> set (call_states (Suc (Suc 0)) rewire (object_values ps) VUndefined ?h).
                       call_fn (Suc (Suc 0)) rewire f [VUndefined] hx \<noteq> None"
    by (simp add: ov) (simp add: two_listeners_def hub_ops rewire_def)
  have "\<exists>rl h1 evs1. call_logger (Suc (Suc 0)) rewire ?h ''a'' VUndefined = Some (rl, h1, evs1)
               \<and> (rl = Inr () \<longrightarrow>
                    (\<forall>(f, hx) \<in> set (call_states (Suc (Suc 0)) rewire (object_values ps) VUndefined h1).
                       call_fn (Suc (Suc 0)) rewire f [VUndefined] hx \<noteq> None))"
    using lg fin by (intro exI[of _ "Inr ()"] exI[of _ ?h] exI[of _ "[]"] conjI impI)
  with T have 4: "?e1 \<noteq> None" by (rule iffD2)
  from 1 2 3 4 show ?thesis by (intro conjI)
qed

section \<open>C4: a listener's error is caught and reported\<close>



section \<open>C5: the value \<^verbatim>\<open>emit\<close> returns\<close>

text \<open>
  C5.  On a declared event with listener object \<open>ps\<close>, \<^verbatim>\<open>listenerCount\<close> is the number of
  entries of \<open>ps\<close>; whenever \<^verbatim>\<open>emit\<close> returns a value, that value is \<^verbatim>\<open>true\<close> if \<open>ps\<close> has
  an entry and \<^verbatim>\<open>false\<close> if it has none, whatever the listeners did or threw; and
  \<^verbatim>\<open>emit\<close> does return it if the logger call returns and the listeners return or throw.
\<close>

theorem emit_return_value:
  assumes "valid_event h eventName = Some ev" and "callbacks h ev = Some ps"
  shows "listenerCount h eventName = Inr (RNum (length ps))
       \<and> (\<forall>v h' evs. emit n prog h eventName data = Some (Inr v, h', evs) \<longrightarrow> v = RBool (0 < length ps))
       \<and> ((\<exists>h1 evs1. call_logger n prog h ev data = Some (Inr (), h1, evs1))
            \<and> (\<forall>f \<in> set (object_values ps). \<forall>hx. call_fn n prog f [data] hx \<noteq> None)
          \<longrightarrow> (\<exists>h' evs. emit n prog h eventName data = Some (Inr (RBool (0 < length ps)), h', evs)))"
proof (intro conjI allI impI)
  show "listenerCount h eventName = Inr (RNum (length ps))"
    using assms by (rule listenerCount_of)
next
  fix v h' evs
  assume e: "emit n prog h eventName data = Some (Inr v, h', evs)"
  have "v = RBool (object_values ps \<noteq> [])"
    by (rule emit_returns[OF assms e])
  then show "v = RBool (0 < length ps)"
    by (simp add: object_values_empty)
next
  assume a: "(\<exists>h1 evs1. call_logger n prog h ev data = Some (Inr (), h1, evs1))
            \<and> (\<forall>f \<in> set (object_values ps). \<forall>hx. call_fn n prog f [data] hx \<noteq> None)"
  then obtain h1 evs1 where l: "call_logger n prog h ev data = Some (Inr (), h1, evs1)" by blast
  from a have t: "\<forall>f \<in> set (object_values ps). \<forall>hx. call_fn n prog f [data] hx \<noteq> None" by blast
  from emit_total[OF assms l t]
  show "\<exists>h' evs. emit n prog h eventName data = Some (Inr (RBool (0 < length ps)), h', evs)"
    by (auto simp: object_values_empty)
qed

text \<open>Event \<open>a\<close> has two listeners, one of which throws; event \<open>b\<close> has none.\<close>

theorem emit_return_value_witness:
  "listenerCount two_listeners (VStr ''a'') = Inr (RNum 2)
   \<and> returned (emit (Suc 0) boom two_listeners (VStr ''a'') VUndefined) = Some (Inr (RBool True))
   \<and> listenerCount two_listeners (VStr ''b'') = Inr (RNum 0)
   \<and> returned (emit (Suc 0) boom two_listeners (VStr ''b'') VUndefined) = Some (Inr (RBool False))"
proof -
  let ?h = "two_listeners"
  let ?ps = "[(''x'', UserFn 1), (''y'', UserFn 2)]"
  have va: "valid_event ?h (VStr ''a'') = Some ''a''" and vb: "valid_event ?h (VStr ''b'') = Some ''b''"
    by (simp_all add: two_listeners_def hub_ops)
  have ca: "callbacks ?h ''a'' = Some ?ps" and cb: "callbacks ?h ''b'' = Some []"
    by (simp_all add: two_listeners_def hub_ops)
  have la: "\<exists>h1 evs1. call_logger (Suc 0) boom ?h ''a'' VUndefined = Some (Inr (), h1, evs1)"
    and lb: "\<exists>h1 evs1. call_logger (Suc 0) boom ?h ''b'' VUndefined = Some (Inr (), h1, evs1)"
    by (simp_all add: two_listeners_def hub_ops)
  have ta: "\<forall>f \<in> set (object_values ?ps). \<forall>hx. call_fn (Suc 0) boom f [VUndefined] hx \<noteq> None"
    by (simp add: hub_ops boom_def)
  have tb: "\<forall>f \<in> set (object_values ([] :: func obj)). \<forall>hx. call_fn (Suc 0) boom f [VUndefined] hx \<noteq> None"
    by (simp add: hub_ops)
  note A = emit_return_value[OF va ca, of "Suc 0" boom VUndefined]
  note B = emit_return_value[OF vb cb, of "Suc 0" boom VUndefined]
  from A have a1: "listenerCount ?h (VStr ''a'') = Inr (RNum (length ?ps))" by (rule conjunct1)
  have a2: "\<exists>h' evs. emit (Suc 0) boom ?h (VStr ''a'') VUndefined
                          = Some (Inr (RBool (0 < length ?ps)), h', evs)"
    by (rule mp[OF A[THEN conjunct2, THEN conjunct2] conjI[OF la ta]])
  from B have b1: "listenerCount ?h (VStr ''b'') = Inr (RNum (length ([] :: func obj)))" by (rule conjunct1)
  have b2: "\<exists>h' evs. emit (Suc 0) boom ?h (VStr ''b'') VUndefined
                          = Some (Inr (RBool (0 < length ([] :: func obj))), h', evs)"
    by (rule mp[OF B[THEN conjunct2, THEN conjunct2] conjI[OF lb tb]])
  from a1 a2 have a: "listenerCount ?h (VStr ''a'') = Inr (RNum 2)"
    "\<exists>h' evs. emit (Suc 0) boom ?h (VStr ''a'') VUndefined = Some (Inr (RBool True), h', evs)"
    by simp_all
  from b1 b2 have b: "listenerCount ?h (VStr ''b'') = Inr (RNum 0)"
    "\<exists>h' evs. emit (Suc 0) boom ?h (VStr ''b'') VUndefined = Some (Inr (RBool False), h', evs)"
    by simp_all
  from a obtain ha ea where ea: "emit (Suc 0) boom ?h (VStr ''a'') VUndefined = Some (Inr (RBool True), ha, ea)"
    by blast
  from b obtain hb eb where eb: "emit (Suc 0) boom ?h (VStr ''b'') VUndefined = Some (Inr (RBool False), hb, eb)"
    by blast
  have r1: "returned (emit (Suc 0) boom ?h (VStr ''a'') VUndefined) = Some (Inr (RBool True))"
    by (simp only: ea returned_def option.case prod.case)
  have r2: "returned (emit (Suc 0) boom ?h (VStr ''b'') VUndefined) = Some (Inr (RBool False))"
    by (simp only: eb returned_def option.case prod.case)
  from a(1) r1 b(1) r2 show ?thesis by (intro conjI)
qed

section \<open>C7: construction\<close>

lemma typeof_string: "typeof v = ''string'' \<longleftrightarrow> (\<exists>s. v = VStr s)"
  by (cases v) auto

lemma init_callbacks_non_string:
  "x \<in> set names \<Longrightarrow> typeof x \<noteq> ''string'' \<Longrightarrow> \<exists>t. init_callbacks names m = Inl (EventNameNotString t)"
proof (induction names arbitrary: m)
  case Nil
  then show ?case by simp
next
  case (Cons y names)
  show ?case
  proof (cases y)
    case (VStr s)
    with Cons.prems have "x \<in> set names" by auto
    then have "\<exists>t. init_callbacks names (m(s \<mapsto> [])) = Inl (EventNameNotString t)"
      using Cons.prems(2) by (rule Cons.IH)
    moreover have "init_callbacks (y # names) m = init_callbacks names (m(s \<mapsto> []))"
      using VStr by simp
    ultimately show ?thesis by (simp only:)
  qed simp_all
qed

lemma init_callbacks_Inr:
  "init_callbacks names m = Inr cbs \<Longrightarrow> names = map VStr (strings_of names)"
  by (induction names m rule: init_callbacks.induct) auto

lemma createNexusHub_Inr:
  assumes "createNexusHub v = Inr h"
  shows "\<exists>a ss. v = VArr a (map VStr ss) \<and> ss \<noteq> [] \<and> distinct ss \<and> h = new_hub ss"
proof (cases v)
  case (VArr a names)
  from assms VArr have ne: "names \<noteq> []" by (auto split: if_splits)
  from assms VArr have len: "length (remdups names) = length names" by (auto split: if_splits)
  from assms VArr ne len obtain cbs where i: "init_callbacks names Map.empty = Inr cbs"
    by (auto split: sum.splits)
  let ?ss = "strings_of names"
  from init_callbacks_Inr[OF i] have n: "names = map VStr ?ss" .
  from len have "distinct names" by (simp add: length_remdups_eq)
  with n have d: "distinct ?ss" by (metis distinct_map)
  from ne n have ne': "?ss \<noteq> []" by auto
  from new_hub_created[OF ne' d, of a] n assms VArr have "h = new_hub ?ss" by simp
  with VArr n ne' d show ?thesis by blast
qed (use assms in auto)

text \<open>
  C7.  \<^verbatim>\<open>createNexusHub\<close> fails for a value that is not an array (TypeError), for the
  empty array (Error), for an array with a repeated element (Error) and for an array with
  an element that is not a string (the TypeError for that element, or the Error for
  duplicates when an element is repeated as well, which is checked first); each of these
  errors is of the kind \<open>InvalidArgument\<close>.  A construction succeeds exactly for a
  non-empty array of distinct strings, and the hub then has these names, an empty
  listener object for each, debug disabled, and the default logger, which writes the
  event and the payload to the console.
\<close>

theorem construction:
  "((\<forall>a names. v \<noteq> VArr a names) \<longrightarrow> createNexusHub v = Inl EventNamesNotArray)
   \<and> createNexusHub (VArr a []) = Inl NoEventNames
   \<and> (names \<noteq> [] \<and> \<not> distinct names \<longrightarrow> createNexusHub (VArr a names) = Inl DuplicateEventNames)
   \<and> (\<forall>x \<in> set names. typeof x \<noteq> ''string'' \<longrightarrow>
         (\<exists>e. createNexusHub (VArr a names) = Inl e \<and> kind_of e = Some InvalidArgument))
   \<and> (\<forall>x \<in> set names. typeof x \<noteq> ''string'' \<and> distinct names \<longrightarrow>
         (\<exists>t. createNexusHub (VArr a names) = Inl (EventNameNotString t)))
   \<and> kind_of EventNamesNotArray = Some InvalidArgument
   \<and> kind_of NoEventNames = Some InvalidArgument
   \<and> kind_of DuplicateEventNames = Some InvalidArgument
   \<and> (\<forall>h. createNexusHub v = Inr h \<longrightarrow>
         (\<exists>a ss. v = VArr a (map VStr ss) \<and> ss \<noteq> [] \<and> distinct ss \<and> eventNames h = ss
            \<and> (\<forall>ev \<in> set ss. callbacks h ev = Some [])
            \<and> \<not> debugAll h \<and> debugFilter h = None \<and> logger h = DefaultLogger))
   \<and> (ss \<noteq> [] \<and> distinct ss \<longrightarrow> (\<exists>h. createNexusHub (VArr a (map VStr ss)) = Inr h))
   \<and> call_fn (Suc n) prog DefaultLogger [c, d] hx = Some (Inr (), hx, [ConsoleLog c d])
   \<and> error_class EventNamesNotArray = Some TypeError
   \<and> error_class NoEventNames = Some PlainError
   \<and> error_class DuplicateEventNames = Some PlainError
   \<and> error_class (EventNameNotString t) = Some TypeError"
proof (intro conjI)
  show "(\<forall>a names. v \<noteq> VArr a names) \<longrightarrow> createNexusHub v = Inl EventNamesNotArray"
    by (cases v) auto
  show "createNexusHub (VArr a []) = Inl NoEventNames" by simp
  show "names \<noteq> [] \<and> \<not> distinct names \<longrightarrow> createNexusHub (VArr a names) = Inl DuplicateEventNames"
    by (auto simp: length_remdups_eq)
  show "\<forall>x \<in> set names. typeof x \<noteq> ''string'' \<longrightarrow>
         (\<exists>e. createNexusHub (VArr a names) = Inl e \<and> kind_of e = Some InvalidArgument)"
  proof (intro ballI impI)
    fix x assume x: "x \<in> set names" "typeof x \<noteq> ''string''"
    from init_callbacks_non_string[OF x] obtain t where
      "init_callbacks names Map.empty = Inl (EventNameNotString t)" by blast
    moreover from x have "names \<noteq> []" by auto
    ultimately show "\<exists>e. createNexusHub (VArr a names) = Inl e \<and> kind_of e = Some InvalidArgument"
      by auto
  qed
  show "\<forall>x \<in> set names. typeof x \<noteq> ''string'' \<and> distinct names \<longrightarrow>
         (\<exists>t. createNexusHub (VArr a names) = Inl (EventNameNotString t))"
  proof (intro ballI impI)
    fix x assume x: "x \<in> set names" and "typeof x \<noteq> ''string'' \<and> distinct names"
    then have ns: "typeof x \<noteq> ''string''" and d: "distinct names" by simp_all
    from init_callbacks_non_string[OF x ns] obtain t where
      "init_callbacks names Map.empty = Inl (EventNameNotString t)" by blast
    moreover from x have "names \<noteq> []" by auto
    moreover from d have "length (remdups names) = length names" by (simp add: length_remdups_eq)
    ultimately show "\<exists>t. createNexusHub (VArr a names) = Inl (EventNameNotString t)"
      by simp
  qed
  show "\<forall>h. createNexusHub v = Inr h \<longrightarrow>
         (\<exists>a ss. v = VArr a (map VStr ss) \<and> ss \<noteq> [] \<and> distinct ss \<and> eventNames h = ss
            \<and> (\<forall>ev \<in> set ss. callbacks h ev = Some [])
            \<and> \<not> debugAll h \<and> debugFilter h = None \<and> logger h = DefaultLogger)"
  proof (intro allI impI)
    fix h assume "createNexusHub v = Inr h"
    from createNexusHub_Inr[OF this] obtain a ss where
      "v = VArr a (map VStr ss)" "ss \<noteq> []" "distinct ss" "h = new_hub ss" by blast
    then show "\<exists>a ss. v = VArr a (map VStr ss) \<and> ss \<noteq> [] \<and> distinct ss \<and> eventNames h = ss
            \<and> (\<forall>ev \<in> set ss. callbacks h ev = Some [])
            \<and> \<not> debugAll h \<and> debugFilter h = None \<and> logger h = DefaultLogger"
      by (auto simp: new_hub_def)
  qed
  show "ss \<noteq> [] \<and> distinct ss \<longrightarrow> (\<exists>h. createNexusHub (VArr a (map VStr ss)) = Inr h)"
    using new_hub_created by blast
  show "call_fn (Suc n) prog DefaultLogger [c, d] hx = Some (Inr (), hx, [ConsoleLog c d])"
    by (simp add: arg_def)
qed simp_all

text \<open>The four failures and a successful construction at concrete arguments.\<close>

theorem construction_witness:
  "createNexusHub (VStr ''a'') = Inl EventNamesNotArray
   \<and> createNexusHub (VArr 0 []) = Inl NoEventNames
   \<and> createNexusHub (VArr 0 [VStr ''a'', VStr ''b'', VStr ''a'']) = Inl DuplicateEventNames
   \<and> kind_of (projl (createNexusHub (VArr 0 [VStr ''a'', VNum 1]))) = Some InvalidArgument
   \<and> callbacks (projr (createNexusHub (VArr 0 [VStr ''a'', VStr ''b'']))) ''b'' = Some []
   \<and> \<not> debugAll (projr (createNexusHub (VArr 0 [VStr ''a'', VStr ''b''])))"
proof -
  note A = construction[of "VStr ''a''" 0 "[VStr ''a'', VStr ''b'', VStr ''a'']" "[''a'']"]
  note B = construction[of "VArr 0 [VStr ''a'', VStr ''b'']" 0 "[VStr ''a'', VNum 1]" "[''a'', ''b'']"]
  have 1: "createNexusHub (VStr ''a'') = Inl EventNamesNotArray"
    using A[THEN conjunct1] by simp
  have 2: "createNexusHub (VArr 0 []) = Inl NoEventNames"
    using A[THEN conjunct2, THEN conjunct1] .
  have 3: "createNexusHub (VArr 0 [VStr ''a'', VStr ''b'', VStr ''a'']) = Inl DuplicateEventNames"
    using A[THEN conjunct2, THEN conjunct2, THEN conjunct1] by simp
  have "\<exists>e. createNexusHub (VArr 0 [VStr ''a'', VNum 1]) = Inl e \<and> kind_of e = Some InvalidArgument"
    using B[THEN conjunct2, THEN conjunct2, THEN conjunct2, THEN conjunct1] by simp
  then have 4: "kind_of (projl (createNexusHub (VArr 0 [VStr ''a'', VNum 1]))) = Some InvalidArgument"
    by auto
  obtain h where h: "createNexusHub (VArr 0 [VStr ''a'', VStr ''b'']) = Inr h"
    using B[THEN conjunct2, THEN conjunct2, THEN conjunct2, THEN conjunct2, THEN conjunct2,
            THEN conjunct2, THEN conjunct2, THEN conjunct2, THEN conjunct2, THEN conjunct1]
    by auto
  from B[THEN conjunct2, THEN conjunct2, THEN conjunct2, THEN conjunct2, THEN conjunct2,
            THEN conjunct2, THEN conjunct2, THEN conjunct2, THEN conjunct1] h
  have 5: "callbacks h ''b'' = Some [] \<and> \<not> debugAll h"
    by auto
  from 1 2 3 4 5 h show ?thesis by simp
qed

section \<open>C8: \<^verbatim>\<open>off\<close>\<close>

lemma off_id:
  "valid_event h eventName = Some ev \<Longrightarrow> callbacks h ev = Some ps \<Longrightarrow>
   off h eventName (VStr i) = (Inr RHub, h\<lparr>callbacks := (callbacks h)(ev \<mapsto> obj_delete i ps)\<rparr>)"
  by (simp add: off_def)

lemma obj_delete_absent: "i \<notin> fst ` set ps \<Longrightarrow> obj_delete i ps = ps"
  by (induction ps) (auto simp: obj_delete_def)

lemma map_of_obj_delete: "map_of (obj_delete i ps) j = (if j = i then None else map_of ps j)"
  by (induction ps) (auto simp: obj_delete_def)

lemma two_listeners_a:
  "valid_event two_listeners (VStr ''a'') = Some ''a''"
  "callbacks two_listeners ''a'' = Some [(''x'', UserFn 1), (''y'', UserFn 2)]"
  by (simp_all add: two_listeners_def hub_ops)

text \<open>
  C8.  On a declared event with listener object \<open>ps\<close>: \<^verbatim>\<open>off(eventName, id)\<close> with a
  string id returns the hub and changes the state only in that event's listener object,
  from which it removes the entry of that id and no other, keeping the order of the
  rest; \<^verbatim>\<open>off(eventName)\<close> replaces only that event's listener object by an empty one;
  for an id that is not registered the state stays as it is; for an id that is neither
  \<^verbatim>\<open>undefined\<close> nor a string it throws the \<open>InvalidArgument\<close> error "Listener ID must be
  a string" and the state stays as it is.
\<close>

theorem off_frame:
  assumes "valid_event h eventName = Some ev" and "callbacks h ev = Some ps"
  shows "off h eventName (VStr i) =
           (Inr RHub, h\<lparr>callbacks := (callbacks h)(ev \<mapsto> filter (\<lambda>p. fst p \<noteq> i) ps)\<rparr>)
       \<and> (\<forall>j. map_of (filter (\<lambda>p. fst p \<noteq> i) ps) j = (if j = i then None else map_of ps j))
       \<and> (\<forall>ev'. ev' \<noteq> ev \<longrightarrow> callbacks (snd (off h eventName (VStr i))) ev' = callbacks h ev')
       \<and> off h eventName VUndefined = (Inr RHub, h\<lparr>callbacks := (callbacks h)(ev \<mapsto> [])\<rparr>)
       \<and> (\<forall>ev'. ev' \<noteq> ev \<longrightarrow> callbacks (snd (off h eventName VUndefined)) ev' = callbacks h ev')
       \<and> (i \<notin> fst ` set ps \<longrightarrow> off h eventName (VStr i) = (Inr RHub, h))
       \<and> (ident \<noteq> VUndefined \<and> typeof ident \<noteq> ''string'' \<longrightarrow>
            off h eventName ident = (Inl ListenerIdNotString, h)
            \<and> kind_of ListenerIdNotString = Some InvalidArgument)"
proof (intro conjI allI impI)
  show 1: "off h eventName (VStr i) =
           (Inr RHub, h\<lparr>callbacks := (callbacks h)(ev \<mapsto> filter (\<lambda>p. fst p \<noteq> i) ps)\<rparr>)"
    using off_id[OF assms] by (simp add: obj_delete_def)
  show "map_of (filter (\<lambda>p. fst p \<noteq> i) ps) j = (if j = i then None else map_of ps j)" for j
    using map_of_obj_delete[of i ps j] by (simp add: obj_delete_def)
  show "callbacks (snd (off h eventName (VStr i))) ev' = callbacks h ev'" if "ev' \<noteq> ev" for ev'
    using that by (simp add: 1)
  show 2: "off h eventName VUndefined = (Inr RHub, h\<lparr>callbacks := (callbacks h)(ev \<mapsto> [])\<rparr>)"
    using assms by (simp add: off_def)
  show "callbacks (snd (off h eventName VUndefined)) ev' = callbacks h ev'" if "ev' \<noteq> ev" for ev'
    using that by (simp add: 2)
  show "off h eventName (VStr i) = (Inr RHub, h)" if "i \<notin> fst ` set ps"
    using off_id[OF assms, of i] obj_delete_absent[OF that] hub_callbacks_triv[OF assms(2)]
    by (simp only:)
  show "off h eventName ident = (Inl ListenerIdNotString, h)"
    if "ident \<noteq> VUndefined \<and> typeof ident \<noteq> ''string''"
    using that assms by (cases ident) (simp_all add: off_def)
  show "kind_of ListenerIdNotString = Some InvalidArgument" by simp
qed

text \<open>On the hub with listeners \<open>x\<close> and \<open>y\<close> on event \<open>a\<close>.\<close>

theorem off_frame_witness:
  "callbacks (snd (off two_listeners (VStr ''a'') (VStr ''x''))) ''a'' = Some [(''y'', UserFn 2)]
   \<and> callbacks (snd (off two_listeners (VStr ''a'') (VStr ''x''))) ''b'' = callbacks two_listeners ''b''
   \<and> callbacks (snd (off two_listeners (VStr ''a'') VUndefined)) ''a'' = Some []
   \<and> off two_listeners (VStr ''a'') (VStr ''q'') = (Inr RHub, two_listeners)
   \<and> off two_listeners (VStr ''a'') (VNum 3) = (Inl ListenerIdNotString, two_listeners)"
proof -
  note X = off_frame[OF two_listeners_a, of "''x''" "VNum 3"]
  note Q = off_frame[OF two_listeners_a, of "''q''" "VNum 3"]
  from X[THEN conjunct1]
  have 1: "callbacks (snd (off two_listeners (VStr ''a'') (VStr ''x''))) ''a'' = Some [(''y'', UserFn 2)]"
    by simp
  from X[THEN conjunct2, THEN conjunct2, THEN conjunct1]
  have 2: "callbacks (snd (off two_listeners (VStr ''a'') (VStr ''x''))) ''b'' = callbacks two_listeners ''b''"
    by simp
  from X[THEN conjunct2, THEN conjunct2, THEN conjunct2, THEN conjunct1]
  have 3: "callbacks (snd (off two_listeners (VStr ''a'') VUndefined)) ''a'' = Some []"
    by simp
  from Q[THEN conjunct2, THEN conjunct2, THEN conjunct2, THEN conjunct2, THEN conjunct2, THEN conjunct1]
  have 4: "off two_listeners (VStr ''a'') (VStr ''q'') = (Inr RHub, two_listeners)"
    by simp
  from X[THEN conjunct2, THEN conjunct2, THEN conjunct2, THEN conjunct2, THEN conjunct2, THEN conjunct2]
  have 5: "off two_listeners (VStr ''a'') (VNum 3) = (Inl ListenerIdNotString, two_listeners)"
    by simp
  from 1 2 3 4 5 show ?thesis by (intro conjI)
qed

section \<open>C9: \<^verbatim>\<open>setDebug\<close> and the logger\<close>

lemma strings_of_mem: "VStr s \<in> set vs \<longleftrightarrow> s \<in> set (strings_of vs)"
  by (induction vs rule: strings_of.induct) auto

lemma setDebug_list:
  "\<forall>x \<in> set L. valid_event h x \<noteq> None \<Longrightarrow>
   setDebug h (VArr a L) = (Inr RHub, h\<lparr>debugAll := False, debugFilter := Some (set (strings_of L))\<rparr>)"
proof -
  assume a: "\<forall>x \<in> set L. valid_event h x \<noteq> None"
  have "find (\<lambda>v. valid_event h v = None) L = None"
    using a by (simp add: find_None_iff)
  then show ?thesis by (simp add: setDebug_def)
qed

lemma setDebug_undeclared:
  "x \<in> set L \<Longrightarrow> valid_event h x = None \<Longrightarrow>
   \<exists>y \<in> set L. valid_event h y = None \<and> setDebug h (VArr a L) = (Inl (not_registered h y), h)"
proof -
  assume "x \<in> set L" "valid_event h x = None"
  then obtain y where "find (\<lambda>v. valid_event h v = None) L = Some y"
    by (cases "find (\<lambda>v. valid_event h v = None) L") (auto simp: find_None_iff)
  moreover from this have "y \<in> set L" "valid_event h y = None"
    by (auto simp: find_Some_iff)
  ultimately show ?thesis by (auto simp: setDebug_def)
qed

lemma valid_event_debug_upd [simp]:
  "valid_event (h\<lparr>debugAll := b, debugFilter := f\<rparr>) v = valid_event h v"
  by (cases v) auto

lemma setDebug_valid:
  assumes "x = VBool True \<or> x = VBool False
           \<or> (\<exists>a L. x = VArr a L \<and> (\<forall>y \<in> set L. valid_event h y \<noteq> None))"
  shows "fst (setDebug h x) = Inr RHub
       \<and> (debug_enabled (snd (setDebug h x)) ev
            \<longleftrightarrow> x = VBool True \<or> (\<exists>a L. x = VArr a L \<and> VStr ev \<in> set L))"
proof -
  consider "x = VBool True" | "x = VBool False"
    | a L where "x = VArr a L" "\<forall>y \<in> set L. valid_event h y \<noteq> None"
    using assms by blast
  then show ?thesis
  proof cases
    case 1
    then show ?thesis by (simp add: setDebug_def debug_enabled_def)
  next
    case 2
    then show ?thesis by (simp add: setDebug_def debug_enabled_def)
  next
    case 3
    from setDebug_list[OF 3(2), of a] 3(1) show ?thesis
      by (simp add: debug_enabled_def strings_of_mem)
  qed
qed

lemma debug_enabled_cong:
  "debugAll g = debugAll h \<Longrightarrow> debugFilter g = debugFilter h \<Longrightarrow> debug_enabled g ev = debug_enabled h ev"
  by (simp add: debug_enabled_def)

lemma on_debug:
  "on h c i f = (r, h') \<Longrightarrow> debugAll h' = debugAll h \<and> debugFilter h' = debugFilter h"
  by (auto simp: on_def split: option.splits jsval.splits if_splits)

lemma once_debug:
  assumes "once h c i f = (r, h')"
  shows "debugAll h' = debugAll h \<and> debugFilter h' = debugFilter h"
proof (cases "valid_event h c")
  case None
  with assms show ?thesis by (simp add: once_def)
next
  case (Some ev)
  show ?thesis
  proof (cases f)
    case (VFun g)
    let ?h1 = "h\<lparr>onceWrappers := weakmap_set g (OnceWrapper ev i g) (onceWrappers h)\<rparr>"
    from assms Some VFun have "on ?h1 c i (VFun (OnceWrapper ev i g)) = (r, h')"
      by (simp add: once_def Let_def)
    from on_debug[OF this] show ?thesis by simp
  qed (use assms Some in \<open>auto simp: once_def\<close>)
qed

lemma off_debug:
  "off h c i = (r, h') \<Longrightarrow> debugAll h' = debugAll h \<and> debugFilter h' = debugFilter h"
  by (auto simp: off_def split: option.splits jsval.splits if_splits)

lemma clear_debug:
  "clear h c = (r, h') \<Longrightarrow> debugAll h' = debugAll h \<and> debugFilter h' = debugFilter h"
  by (auto simp: clear_def split: option.splits if_splits)

lemma setLogger_debug:
  "setLogger h f = (r, h') \<Longrightarrow> debugAll h' = debugAll h \<and> debugFilter h' = debugFilter h"
  by (auto simp: setLogger_def split: jsval.splits)

lemma simple_stmt_debug:
  "plain_call s \<Longrightarrow> simple_stmt s h = (r, h') \<Longrightarrow>
   debugAll h' = debugAll h \<and> debugFilter h' = debugFilter h"
  by (cases s)
     (auto split: prod.splits dest: on_debug once_debug off_debug clear_debug setLogger_debug)

lemma after_plain_frame:
  "\<forall>s \<in> set ss. plain_call s \<Longrightarrow> wf_hub h \<Longrightarrow>
   kept h (after_plain h ss)
   \<and> debugAll (after_plain h ss) = debugAll h \<and> debugFilter (after_plain h ss) = debugFilter h"
proof (induction ss arbitrary: h)
  case Nil
  then show ?case by (simp add: kept_refl)
next
  case (Cons s ss)
  let ?h1 = "snd (simple_stmt s h)"
  have s: "simple_stmt s h = (fst (simple_stmt s h), ?h1)" by simp
  from Cons.prems have p: "plain_call s" by simp
  from simple_stmt_kept[OF Cons.prems(2) s] have k: "kept h ?h1" .
  from simple_stmt_debug[OF p s] have d: "debugAll ?h1 = debugAll h \<and> debugFilter ?h1 = debugFilter h" .
  from Cons.prems have "\<forall>s \<in> set ss. plain_call s" by simp
  from Cons.IH[OF this kept_wf[OF k]] k d show ?case
    by (auto intro: kept_trans)
qed

lemma emit_logger_first:
  assumes v: "valid_event g eventName = Some ev" and c: "callbacks g ev = Some ps"
    and e: "emit n prog g eventName data = Some (r, h', evs)"
  shows "if debug_enabled g ev
         then (\<exists>rl h1 nested rest.
                 call_fn n prog (logger g) [VStr ev, data] g = Some (rl, h1, nested)
               \<and> evs = Invoked AsLogger (logger g) [VStr ev, data] nested (thrown rl) # rest
               \<and> logger_calls rest = []
               \<and> (\<forall>e. rl = Inl e \<longrightarrow> r = Inl e \<and> h' = h1 \<and> rest = [])
               \<and> (rl = Inr () \<longrightarrow>
                    (\<exists>v. r = Inr v) \<and> after_calls n prog (object_values ps) data h1 = Some h'
                    \<and> map fst (listener_calls rest) = object_values ps))
         else logger_calls evs = [] \<and> (\<exists>v. r = Inr v)
              \<and> after_calls n prog (object_values ps) data g = Some h'
              \<and> map fst (listener_calls evs) = object_values ps"
proof (cases "debug_enabled g ev")
  case False
  have l: "call_logger n prog g ev data = Some (Inr (), g, [])" using False by (simp add: call_logger.simps)
  from v c e l obtain w where w: "r = Inr w"
    by (cases r) (auto simp: emit.simps split: option.splits)
  with e have e': "emit n prog g eventName data = Some (Inr w, h', evs)" by simp
  from v c e' obtain h1 evs1 errs evs2 where
    l': "call_logger n prog g ev data = Some (Inr (), h1, evs1)" and
    f: "forEach n prog ev (object_values ps) data h1 = Some (errs, h', evs2)" and
    evs: "evs = evs1 @ evs2 @ (if errs \<noteq> [] \<and> debug_enabled h' ev then [ConsoleErrorCount (length errs) ev] else [])"
    by (rule emit_returns)
  from l l' have h1: "h1 = g" "evs1 = []" by simp_all
  from forEach_calls[OF f] forEach_after[OF f] evs h1 w False
  show ?thesis by (simp add: logger_calls_append listener_calls_append)
next
  case True
  from v c e obtain rl h1 evs1 where l: "call_logger n prog g ev data = Some (rl, h1, evs1)"
    by (auto simp: emit.simps split: option.splits)
  from l True obtain nested where
    cf: "call_fn n prog (logger g) [VStr ev, data] g = Some (rl, h1, nested)" and
    evs1: "evs1 = [Invoked AsLogger (logger g) [VStr ev, data] nested (thrown rl)]"
    by (auto simp: call_logger.simps split: option.splits)
  show ?thesis
  proof (cases rl)
    case (Inl x)
    from v c e l Inl have "r = Inl x" "h' = h1" "evs = evs1" by (auto simp: emit.simps)
    with cf evs1 Inl True show ?thesis by auto
  next
    case (Inr u)
    from v c e l Inr obtain errs evs2 where
      f: "forEach n prog ev (object_values ps) data h1 = Some (errs, h', evs2)" and
      r: "r = Inr (RBool (length (object_values ps) > 0))" and
      evs: "evs = evs1 @ evs2 @ (if length errs > 0 \<and> debug_enabled h' ev then [ConsoleErrorCount (length errs) ev] else [])"
      by (auto simp: emit.simps split: option.splits)
    define rest where "rest = evs2 @ (if length errs > 0 \<and> debug_enabled h' ev then [ConsoleErrorCount (length errs) ev] else [])"
    have 1: "evs = Invoked AsLogger (logger g) [VStr ev, data] nested (thrown rl) # rest"
      by (simp add: evs evs1 rest_def)
    have 2: "logger_calls rest = []" using forEach_calls[OF f] by (simp add: rest_def logger_calls_append)
    have 3: "map fst (listener_calls rest) = object_values ps"
      using forEach_calls[OF f] by (simp add: rest_def listener_calls_append)
    have 4: "\<forall>e. rl = Inl e \<longrightarrow> r = Inl e \<and> h' = h1 \<and> rest = []" using Inr by simp
    have 5: "rl = Inr () \<longrightarrow> (\<exists>v. r = Inr v) \<and> after_calls n prog (object_values ps) data h1 = Some h'
                    \<and> map fst (listener_calls rest) = object_values ps"
      using r forEach_after[OF f] 3 by simp
    from cf 1 2 4 5 have "\<exists>rl h1 nested rest.
                 call_fn n prog (logger g) [VStr ev, data] g = Some (rl, h1, nested)
               \<and> evs = Invoked AsLogger (logger g) [VStr ev, data] nested (thrown rl) # rest
               \<and> logger_calls rest = []
               \<and> (\<forall>e. rl = Inl e \<longrightarrow> r = Inl e \<and> h' = h1 \<and> rest = [])
               \<and> (rl = Inr () \<longrightarrow>
                    (\<exists>v. r = Inr v) \<and> after_calls n prog (object_values ps) data h1 = Some h'
                    \<and> map fst (listener_calls rest) = object_values ps)"
      by (intro exI[of _ rl] exI[of _ h1] exI[of _ nested] exI[of _ rest] conjI)
    with True show ?thesis by simp
  qed
qed

lemma emit_finishes_debug:
  assumes v: "valid_event g eventName = Some ev" and c: "callbacks g ev = Some ps"
  shows "emit n prog g eventName data \<noteq> None \<longleftrightarrow>
         (if debug_enabled g ev
          then (\<exists>rl h1 nested. call_fn n prog (logger g) [VStr ev, data] g = Some (rl, h1, nested)
                  \<and> (rl = Inr () \<longrightarrow>
                       (\<forall>(f, hx) \<in> set (call_states n prog (object_values ps) data h1).
                          call_fn n prog f [data] hx \<noteq> None)))
          else (\<forall>(f, hx) \<in> set (call_states n prog (object_values ps) data g).
                  call_fn n prog f [data] hx \<noteq> None))"
proof (cases "debug_enabled g ev")
  case False
  then have l: "call_logger n prog g ev data = Some (Inr (), g, [])" by (simp add: call_logger.simps)
  from emit_finishes[OF v c, of n prog data] l False show ?thesis by simp
next
  case True
  have "(\<exists>rl h1 evs1. call_logger n prog g ev data = Some (rl, h1, evs1)
            \<and> (rl = Inr () \<longrightarrow>
                 (\<forall>(f, hx) \<in> set (call_states n prog (object_values ps) data h1).
                    call_fn n prog f [data] hx \<noteq> None)))
        \<longleftrightarrow> (\<exists>rl h1 nested. call_fn n prog (logger g) [VStr ev, data] g = Some (rl, h1, nested)
                  \<and> (rl = Inr () \<longrightarrow>
                       (\<forall>(f, hx) \<in> set (call_states n prog (object_values ps) data h1).
                          call_fn n prog f [data] hx \<noteq> None)))"
  proof (cases "call_fn n prog (logger g) [VStr ev, data] g")
    case None
    with True show ?thesis by (simp add: call_logger.simps)
  next
    case (Some res)
    obtain rl h1 nested where res: "res = (rl, h1, nested)" by (cases res) auto
    with Some True show ?thesis by (simp add: call_logger.simps)
  qed
  with emit_finishes[OF v c, of n prog data] True show ?thesis by simp
qed

lemma logged_first:
  assumes "\<exists>rl h1 nested rest.
             P rl h1 nested
           \<and> evs = Invoked AsLogger lg args nested (thrown rl) # rest
           \<and> logger_calls rest = []
           \<and> Q rl h1 rest"
  shows "logger_calls evs = [(lg, args)]"
  using assms by auto

text \<open>
  C9.  On a well-formed hub call \<^verbatim>\<open>setDebug(x)\<close> with \<open>x\<close> \<^verbatim>\<open>true\<close>, \<^verbatim>\<open>false\<close> or a list
  of declared events, and then any calls of \<^verbatim>\<open>on\<close>, \<^verbatim>\<open>once\<close>, \<^verbatim>\<open>off\<close>, \<^verbatim>\<open>clear\<close>,
  \<^verbatim>\<open>setLogger\<close>, \<^verbatim>\<open>listenerCount\<close> and \<^verbatim>\<open>listeners\<close>; let \<open>g\<close> be the state then.
  \<^verbatim>\<open>setDebug(x)\<close> returns.  For every emission on a declared event from \<open>g\<close> that finishes:
  if \<open>x\<close> is \<^verbatim>\<open>true\<close>, or a list that contains the event, the logger of \<open>g\<close> is called
  first, in the state \<open>g\<close>, with the event and the payload (the first event of the run is
  this call, with what happened in it and what it threw); if it throws, \<^verbatim>\<open>emit\<close> throws
  that error and does nothing more; if it returns, the listeners of the snapshot are
  called from the state it left; and the logger is not called again.  If \<open>x\<close> is
  \<^verbatim>\<open>false\<close>, or a list without the event, the logger is not called, and the listeners
  are called from \<open>g\<close>.  The emission finishes exactly if the logger's call, where it is
  made, finishes and, when that returns, each listener's call finishes.  \<^verbatim>\<open>setDebug\<close> with
  a list that has an undeclared element throws the \<open>UnknownChannel\<close> error for such an
  element, and with a value that is neither a boolean nor an array the \<open>InvalidArgument\<close>
  error; both leave the state as it is.
\<close>

theorem setDebug_logging:
  assumes "wf_hub h" and "valid_event h eventName = Some ev"
    and "x = VBool True \<or> x = VBool False
         \<or> (\<exists>a L. x = VArr a L \<and> (\<forall>y \<in> set L. valid_event h y \<noteq> None))"
    and "\<forall>s \<in> set ss. plain_call s"
    and "g = after_plain (snd (setDebug h x)) ss"
  shows "fst (setDebug h x) = Inr RHub
       \<and> (\<exists>ps. valid_event g eventName = Some ev \<and> callbacks g ev = Some ps
            \<and> (\<forall>r h' evs. emit n prog g eventName data = Some (r, h', evs) \<longrightarrow>
                 (if x = VBool True \<or> (\<exists>a L. x = VArr a L \<and> VStr ev \<in> set L)
                  then (\<exists>rl h1 nested rest.
                          call_fn n prog (logger g) [VStr ev, data] g = Some (rl, h1, nested)
                        \<and> evs = Invoked AsLogger (logger g) [VStr ev, data] nested (thrown rl) # rest
                        \<and> logger_calls rest = []
                        \<and> (\<forall>e. rl = Inl e \<longrightarrow> r = Inl e \<and> h' = h1 \<and> rest = [])
                        \<and> (rl = Inr () \<longrightarrow>
                             (\<exists>v. r = Inr v) \<and> after_calls n prog (object_values ps) data h1 = Some h'
                             \<and> map fst (listener_calls rest) = object_values ps))
                  else logger_calls evs = [] \<and> (\<exists>v. r = Inr v)
                       \<and> after_calls n prog (object_values ps) data g = Some h'
                       \<and> map fst (listener_calls evs) = object_values ps))
            \<and> (emit n prog g eventName data \<noteq> None \<longleftrightarrow>
                 (if x = VBool True \<or> (\<exists>a L. x = VArr a L \<and> VStr ev \<in> set L)
                  then (\<exists>rl h1 nested.
                          call_fn n prog (logger g) [VStr ev, data] g = Some (rl, h1, nested)
                        \<and> (rl = Inr () \<longrightarrow>
                             (\<forall>(f, hx) \<in> set (call_states n prog (object_values ps) data h1).
                                call_fn n prog f [data] hx \<noteq> None)))
                  else (\<forall>(f, hx) \<in> set (call_states n prog (object_values ps) data g).
                          call_fn n prog f [data] hx \<noteq> None))))
       \<and> (\<forall>y \<in> set L. valid_event h y = None \<longrightarrow>
            (\<exists>z \<in> set L. valid_event h z = None
               \<and> setDebug h (VArr a L) = (Inl (not_registered h z), h)
               \<and> kind_of (not_registered h z) = Some UnknownChannel))
       \<and> ((\<forall>b. d \<noteq> VBool b) \<and> (\<forall>a L. d \<noteq> VArr a L) \<longrightarrow>
            setDebug h d = (Inl DebugNotBooleanOrArray, h)
            \<and> kind_of DebugNotBooleanOrArray = Some InvalidArgument)"
proof -
  define h0 where "h0 = snd (setDebug h x)"
  define logs where "logs \<longleftrightarrow> x = VBool True \<or> (\<exists>a L. x = VArr a L \<and> VStr ev \<in> set L)"
  from setDebug_valid[OF assms(3), of ev]
  have ok: "fst (setDebug h x) = Inr RHub" and d0: "debug_enabled h0 ev \<longleftrightarrow> logs"
    by (simp_all add: h0_def logs_def)
  have "setDebug h x = (fst (setDebug h x), h0)" by (simp add: h0_def)
  from setDebug_kept[OF assms(1) this] have k0: "kept h h0" .
  from after_plain_frame[OF assms(4) kept_wf[OF k0]] assms(5)
  have k1: "kept h0 g" and da: "debugAll g = debugAll h0" and df: "debugFilter g = debugFilter h0"
    by (simp_all add: h0_def)
  from kept_trans[OF k0 k1] have k: "kept h g" .
  from assms(2) have ev: "eventName = VStr ev" "ev \<in> set (validEvents h)"
    by (auto dest: valid_event_SomeD)
  from k ev have v: "valid_event g eventName = Some ev" by (simp add: kept_def)
  from k ev have "callbacks g ev \<noteq> None" by (simp add: kept_def wf_hub_def)
  then obtain ps where c: "callbacks g ev = Some ps" by blast
  have d: "debug_enabled g ev \<longleftrightarrow> logs" using debug_enabled_cong[OF da df] d0 by simp
  have A: "\<forall>r h' evs. emit n prog g eventName data = Some (r, h', evs) \<longrightarrow>
                 (if logs
                  then (\<exists>rl h1 nested rest.
                          call_fn n prog (logger g) [VStr ev, data] g = Some (rl, h1, nested)
                        \<and> evs = Invoked AsLogger (logger g) [VStr ev, data] nested (thrown rl) # rest
                        \<and> logger_calls rest = []
                        \<and> (\<forall>e. rl = Inl e \<longrightarrow> r = Inl e \<and> h' = h1 \<and> rest = [])
                        \<and> (rl = Inr () \<longrightarrow>
                             (\<exists>v. r = Inr v) \<and> after_calls n prog (object_values ps) data h1 = Some h'
                             \<and> map fst (listener_calls rest) = object_values ps))
                  else logger_calls evs = [] \<and> (\<exists>v. r = Inr v)
                       \<and> after_calls n prog (object_values ps) data g = Some h'
                       \<and> map fst (listener_calls evs) = object_values ps)"
  proof (intro allI impI)
    fix r h' evs assume e: "emit n prog g eventName data = Some (r, h', evs)"
    from emit_logger_first[OF v c e]
    show "if logs
                  then (\<exists>rl h1 nested rest.
                          call_fn n prog (logger g) [VStr ev, data] g = Some (rl, h1, nested)
                        \<and> evs = Invoked AsLogger (logger g) [VStr ev, data] nested (thrown rl) # rest
                        \<and> logger_calls rest = []
                        \<and> (\<forall>e. rl = Inl e \<longrightarrow> r = Inl e \<and> h' = h1 \<and> rest = [])
                        \<and> (rl = Inr () \<longrightarrow>
                             (\<exists>v. r = Inr v) \<and> after_calls n prog (object_values ps) data h1 = Some h'
                             \<and> map fst (listener_calls rest) = object_values ps))
                  else logger_calls evs = [] \<and> (\<exists>v. r = Inr v)
                       \<and> after_calls n prog (object_values ps) data g = Some h'
                       \<and> map fst (listener_calls evs) = object_values ps"
      unfolding d .
  qed
  have B: "emit n prog g eventName data \<noteq> None \<longleftrightarrow>
                 (if logs
                  then (\<exists>rl h1 nested.
                          call_fn n prog (logger g) [VStr ev, data] g = Some (rl, h1, nested)
                        \<and> (rl = Inr () \<longrightarrow>
                             (\<forall>(f, hx) \<in> set (call_states n prog (object_values ps) data h1).
                                call_fn n prog f [data] hx \<noteq> None)))
                  else (\<forall>(f, hx) \<in> set (call_states n prog (object_values ps) data g).
                          call_fn n prog f [data] hx \<noteq> None))"
    using emit_finishes_debug[OF v c, of n prog data] unfolding d .
  have C: "\<forall>y \<in> set L. valid_event h y = None \<longrightarrow>
            (\<exists>z \<in> set L. valid_event h z = None
               \<and> setDebug h (VArr a L) = (Inl (not_registered h z), h)
               \<and> kind_of (not_registered h z) = Some UnknownChannel)"
  proof (intro ballI impI)
    fix y assume "y \<in> set L" "valid_event h y = None"
    from setDebug_undeclared[OF this, of a]
    show "\<exists>z \<in> set L. valid_event h z = None
               \<and> setDebug h (VArr a L) = (Inl (not_registered h z), h)
               \<and> kind_of (not_registered h z) = Some UnknownChannel"
      by (auto simp: not_registered_def)
  qed
  have D: "(\<forall>b. d \<noteq> VBool b) \<and> (\<forall>a L. d \<noteq> VArr a L) \<longrightarrow>
            setDebug h d = (Inl DebugNotBooleanOrArray, h)
            \<and> kind_of DebugNotBooleanOrArray = Some InvalidArgument"
    by (cases d) (auto simp: setDebug_def)
  have E: "\<exists>ps. valid_event g eventName = Some ev \<and> callbacks g ev = Some ps
            \<and> (\<forall>r h' evs. emit n prog g eventName data = Some (r, h', evs) \<longrightarrow>
                 (if logs
                  then (\<exists>rl h1 nested rest.
                          call_fn n prog (logger g) [VStr ev, data] g = Some (rl, h1, nested)
                        \<and> evs = Invoked AsLogger (logger g) [VStr ev, data] nested (thrown rl) # rest
                        \<and> logger_calls rest = []
                        \<and> (\<forall>e. rl = Inl e \<longrightarrow> r = Inl e \<and> h' = h1 \<and> rest = [])
                        \<and> (rl = Inr () \<longrightarrow>
                             (\<exists>v. r = Inr v) \<and> after_calls n prog (object_values ps) data h1 = Some h'
                             \<and> map fst (listener_calls rest) = object_values ps))
                  else logger_calls evs = [] \<and> (\<exists>v. r = Inr v)
                       \<and> after_calls n prog (object_values ps) data g = Some h'
                       \<and> map fst (listener_calls evs) = object_values ps))
            \<and> (emit n prog g eventName data \<noteq> None \<longleftrightarrow>
                 (if logs
                  then (\<exists>rl h1 nested.
                          call_fn n prog (logger g) [VStr ev, data] g = Some (rl, h1, nested)
                        \<and> (rl = Inr () \<longrightarrow>
                             (\<forall>(f, hx) \<in> set (call_states n prog (object_values ps) data h1).
                                call_fn n prog f [data] hx \<noteq> None)))
                  else (\<forall>(f, hx) \<in> set (call_states n prog (object_values ps) data g).
                          call_fn n prog f [data] hx \<noteq> None)))"
    using v c A B by (intro exI[of _ ps] conjI)
  from ok E C D show ?thesis unfolding logs_def by (intro conjI)
qed

text \<open>
  On the hub with events \<open>a\<close> and \<open>b\<close> and the default logger, with a listener added and one
  removed after \<^verbatim>\<open>setDebug\<close>.
\<close>

theorem setDebug_logging_witness:
  "logged (emit (Suc 0) idle (debug_then (VBool True)) (VStr ''a'') (VNum 7))
     = [(DefaultLogger, [VStr ''a'', VNum 7])]
   \<and> logged (emit (Suc 0) idle (debug_then (VBool True)) (VStr ''b'') (VNum 7))
     = [(DefaultLogger, [VStr ''b'', VNum 7])]
   \<and> logged (emit (Suc 0) idle (debug_then (VArr 0 [VStr ''a''])) (VStr ''a'') (VNum 7))
     = [(DefaultLogger, [VStr ''a'', VNum 7])]
   \<and> logged (emit (Suc 0) idle (debug_then (VArr 0 [VStr ''a''])) (VStr ''b'') (VNum 7)) = []
   \<and> logged (emit (Suc 0) idle (debug_then (VBool False)) (VStr ''a'') (VNum 7)) = []
   \<and> emit (Suc 0) idle (debug_then (VBool True)) (VStr ''a'') (VNum 7) \<noteq> None
   \<and> setDebug two_listeners (VArr 0 [VStr ''a'', VStr ''zz''])
     = (Inl (EventNotRegistered (VStr ''zz'') [''a'', ''b'']), two_listeners)
   \<and> setDebug two_listeners (VNum 1) = (Inl DebugNotBooleanOrArray, two_listeners)"
proof -
  let ?h = two_listeners
  let ?ss = "[CallOn (VStr ''a'') (VStr ''z'') (VFun (UserFn 3)), CallOff (VStr ''a'') (VStr ''x'')]"
  have wf: "wf_hub ?h" by (simp add: two_listeners_def hub_ops wf_hub_def)
  have va: "valid_event ?h (VStr ''a'') = Some ''a''" and vb: "valid_event ?h (VStr ''b'') = Some ''b''"
    by (simp_all add: two_listeners_def hub_ops)
  have ve: "validEvents ?h = [''a'', ''b'']" by (simp add: two_listeners_def hub_ops)
  have pl: "\<forall>s \<in> set ?ss. plain_call s" by simp
  have xT: "VBool True = VBool True \<or> VBool True = VBool False
         \<or> (\<exists>a L. VBool True = VArr a L \<and> (\<forall>y \<in> set L. valid_event ?h y \<noteq> None))" by simp
  have xF: "VBool False = VBool True \<or> VBool False = VBool False
         \<or> (\<exists>a L. VBool False = VArr a L \<and> (\<forall>y \<in> set L. valid_event ?h y \<noteq> None))" by simp
  have xL: "VArr 0 [VStr ''a''] = VBool True \<or> VArr 0 [VStr ''a''] = VBool False
         \<or> (\<exists>a L. VArr 0 [VStr ''a''] = VArr a L \<and> (\<forall>y \<in> set L. valid_event ?h y \<noteq> None))"
    by (simp add: ve)
  have g: "debug_then x = after_plain (snd (setDebug ?h x)) ?ss" for x by (simp add: debug_then_def)
  have lgT: "logger (debug_then (VBool True)) = DefaultLogger"
    and lgL: "logger (debug_then (VArr 0 [VStr ''a''])) = DefaultLogger"
    by (simp_all add: debug_then_def two_listeners_def hub_ops)
  note Ta = setDebug_logging[OF wf va xT pl g, of "Suc 0" idle "VNum 7" "[VStr ''a'', VStr ''zz'']" 0 "VNum 1"]
  note Tb = setDebug_logging[OF wf vb xT pl g, of "Suc 0" idle "VNum 7" "[VStr ''a'', VStr ''zz'']" 0 "VNum 1"]
  note La = setDebug_logging[OF wf va xL pl g, of "Suc 0" idle "VNum 7" "[VStr ''a'', VStr ''zz'']" 0 "VNum 1"]
  note Lb = setDebug_logging[OF wf vb xL pl g, of "Suc 0" idle "VNum 7" "[VStr ''a'', VStr ''zz'']" 0 "VNum 1"]
  note Fa = setDebug_logging[OF wf va xF pl g, of "Suc 0" idle "VNum 7" "[VStr ''a'', VStr ''zz'']" 0 "VNum 1"]
  obtain r1 h1 e1 where e1: "emit (Suc 0) idle (debug_then (VBool True)) (VStr ''a'') (VNum 7) = Some (r1, h1, e1)"
    by (simp add: debug_then_def two_listeners_def hub_ops idle_def)
  obtain r2 h2 e2 where e2: "emit (Suc 0) idle (debug_then (VBool True)) (VStr ''b'') (VNum 7) = Some (r2, h2, e2)"
    by (simp add: debug_then_def two_listeners_def hub_ops idle_def)
  obtain r3 h3 e3 where e3: "emit (Suc 0) idle (debug_then (VArr 0 [VStr ''a''])) (VStr ''a'') (VNum 7) = Some (r3, h3, e3)"
    by (simp add: debug_then_def two_listeners_def hub_ops idle_def)
  obtain r4 h4 e4 where e4: "emit (Suc 0) idle (debug_then (VArr 0 [VStr ''a''])) (VStr ''b'') (VNum 7) = Some (r4, h4, e4)"
    by (simp add: debug_then_def two_listeners_def hub_ops idle_def)
  obtain r5 h5 e5 where e5: "emit (Suc 0) idle (debug_then (VBool False)) (VStr ''a'') (VNum 7) = Some (r5, h5, e5)"
    by (simp add: debug_then_def two_listeners_def hub_ops idle_def)
  have inL: "VArr 0 [VStr ''a''] = VBool True \<or> (\<exists>a L. VArr 0 [VStr ''a''] = VArr a L \<and> VStr ''a'' \<in> set L)"
    by simp
  have ninL: "\<not> (VArr 0 [VStr ''a''] = VBool True \<or> (\<exists>a L. VArr 0 [VStr ''a''] = VArr a L \<and> VStr ''b'' \<in> set L))"
    by simp
  have ninF: "\<not> (VBool False = VBool True \<or> (\<exists>a L. VBool False = VArr a L \<and> VStr ''a'' \<in> set L))"
    by simp
  from Ta[THEN conjunct2, THEN conjunct1] obtain ps1 where
    c1: "callbacks (debug_then (VBool True)) ''a'' = Some ps1" and
    A1: "\<forall>r h' evs. emit (Suc 0) idle (debug_then (VBool True)) (VStr ''a'') (VNum 7) = Some (r, h', evs) \<longrightarrow>
           (\<exists>rl h1 nested rest.
               call_fn (Suc 0) idle (logger (debug_then (VBool True))) [VStr ''a'', VNum 7] (debug_then (VBool True))
                 = Some (rl, h1, nested)
             \<and> evs = Invoked AsLogger (logger (debug_then (VBool True))) [VStr ''a'', VNum 7] nested (thrown rl) # rest
             \<and> logger_calls rest = []
             \<and> (\<forall>e. rl = Inl e \<longrightarrow> r = Inl e \<and> h' = h1 \<and> rest = [])
             \<and> (rl = Inr () \<longrightarrow>
                  (\<exists>v. r = Inr v)
                  \<and> after_calls (Suc 0) idle (object_values ps1) (VNum 7) h1 = Some h'
                  \<and> map fst (listener_calls rest) = object_values ps1))"
    and B1: "emit (Suc 0) idle (debug_then (VBool True)) (VStr ''a'') (VNum 7) \<noteq> None \<longleftrightarrow>
           (\<exists>rl h1 nested.
               call_fn (Suc 0) idle (logger (debug_then (VBool True))) [VStr ''a'', VNum 7] (debug_then (VBool True))
                 = Some (rl, h1, nested)
             \<and> (rl = Inr () \<longrightarrow>
                  (\<forall>(f, hx) \<in> set (call_states (Suc 0) idle (object_values ps1) (VNum 7) h1).
                     call_fn (Suc 0) idle f [VNum 7] hx \<noteq> None)))"
    by (simp only: simp_thms if_True) (elim exE conjE)
  from A1[rule_format, OF e1]
  have "logger_calls e1 = [(logger (debug_then (VBool True)), [VStr ''a'', VNum 7])]"
    by (rule logged_first)
  then have 1: "logged (emit (Suc 0) idle (debug_then (VBool True)) (VStr ''a'') (VNum 7))
                 = [(DefaultLogger, [VStr ''a'', VNum 7])]"
    by (simp add: e1 logged_def lgT)
  from Tb[THEN conjunct2, THEN conjunct1] obtain ps2 where
    c2: "callbacks (debug_then (VBool True)) ''b'' = Some ps2" and
    A2: "\<forall>r h' evs. emit (Suc 0) idle (debug_then (VBool True)) (VStr ''b'') (VNum 7) = Some (r, h', evs) \<longrightarrow>
           (\<exists>rl h1 nested rest.
               call_fn (Suc 0) idle (logger (debug_then (VBool True))) [VStr ''b'', VNum 7] (debug_then (VBool True))
                 = Some (rl, h1, nested)
             \<and> evs = Invoked AsLogger (logger (debug_then (VBool True))) [VStr ''b'', VNum 7] nested (thrown rl) # rest
             \<and> logger_calls rest = []
             \<and> (\<forall>e. rl = Inl e \<longrightarrow> r = Inl e \<and> h' = h1 \<and> rest = [])
             \<and> (rl = Inr () \<longrightarrow>
                  (\<exists>v. r = Inr v)
                  \<and> after_calls (Suc 0) idle (object_values ps2) (VNum 7) h1 = Some h'
                  \<and> map fst (listener_calls rest) = object_values ps2))"
    and B2: "emit (Suc 0) idle (debug_then (VBool True)) (VStr ''b'') (VNum 7) \<noteq> None \<longleftrightarrow>
           (\<exists>rl h1 nested.
               call_fn (Suc 0) idle (logger (debug_then (VBool True))) [VStr ''b'', VNum 7] (debug_then (VBool True))
                 = Some (rl, h1, nested)
             \<and> (rl = Inr () \<longrightarrow>
                  (\<forall>(f, hx) \<in> set (call_states (Suc 0) idle (object_values ps2) (VNum 7) h1).
                     call_fn (Suc 0) idle f [VNum 7] hx \<noteq> None)))"
    by (simp only: simp_thms if_True) (elim exE conjE)
  from A2[rule_format, OF e2]
  have "logger_calls e2 = [(logger (debug_then (VBool True)), [VStr ''b'', VNum 7])]"
    by (rule logged_first)
  then have 2: "logged (emit (Suc 0) idle (debug_then (VBool True)) (VStr ''b'') (VNum 7))
                 = [(DefaultLogger, [VStr ''b'', VNum 7])]"
    by (simp add: e2 logged_def lgT)
  from La[THEN conjunct2, THEN conjunct1] obtain ps3 where
    c3: "callbacks (debug_then (VArr 0 [VStr ''a''])) ''a'' = Some ps3" and
    A3: "\<forall>r h' evs. emit (Suc 0) idle (debug_then (VArr 0 [VStr ''a''])) (VStr ''a'') (VNum 7) = Some (r, h', evs) \<longrightarrow>
           (\<exists>rl h1 nested rest.
               call_fn (Suc 0) idle (logger (debug_then (VArr 0 [VStr ''a'']))) [VStr ''a'', VNum 7] (debug_then (VArr 0 [VStr ''a'']))
                 = Some (rl, h1, nested)
             \<and> evs = Invoked AsLogger (logger (debug_then (VArr 0 [VStr ''a'']))) [VStr ''a'', VNum 7] nested (thrown rl) # rest
             \<and> logger_calls rest = []
             \<and> (\<forall>e. rl = Inl e \<longrightarrow> r = Inl e \<and> h' = h1 \<and> rest = [])
             \<and> (rl = Inr () \<longrightarrow>
                  (\<exists>v. r = Inr v)
                  \<and> after_calls (Suc 0) idle (object_values ps3) (VNum 7) h1 = Some h'
                  \<and> map fst (listener_calls rest) = object_values ps3))"
    and B3: "emit (Suc 0) idle (debug_then (VArr 0 [VStr ''a''])) (VStr ''a'') (VNum 7) \<noteq> None \<longleftrightarrow>
           (\<exists>rl h1 nested.
               call_fn (Suc 0) idle (logger (debug_then (VArr 0 [VStr ''a'']))) [VStr ''a'', VNum 7] (debug_then (VArr 0 [VStr ''a'']))
                 = Some (rl, h1, nested)
             \<and> (rl = Inr () \<longrightarrow>
                  (\<forall>(f, hx) \<in> set (call_states (Suc 0) idle (object_values ps3) (VNum 7) h1).
                     call_fn (Suc 0) idle f [VNum 7] hx \<noteq> None)))"
    by (simp only: simp_thms if_P[OF inL]) (elim exE conjE)
  from A3[rule_format, OF e3]
  have "logger_calls e3 = [(logger (debug_then (VArr 0 [VStr ''a''])), [VStr ''a'', VNum 7])]"
    by (rule logged_first)
  then have 3: "logged (emit (Suc 0) idle (debug_then (VArr 0 [VStr ''a''])) (VStr ''a'') (VNum 7))
                 = [(DefaultLogger, [VStr ''a'', VNum 7])]"
    by (simp add: e3 logged_def lgL)
  from Lb[THEN conjunct2, THEN conjunct1] obtain ps4 where
    c4: "callbacks (debug_then (VArr 0 [VStr ''a''])) ''b'' = Some ps4" and
    A4: "\<forall>r h' evs. emit (Suc 0) idle (debug_then (VArr 0 [VStr ''a''])) (VStr ''b'') (VNum 7) = Some (r, h', evs) \<longrightarrow>
           logger_calls evs = [] \<and> (\<exists>v. r = Inr v)
             \<and> after_calls (Suc 0) idle (object_values ps4) (VNum 7) (debug_then (VArr 0 [VStr ''a''])) = Some h'
             \<and> map fst (listener_calls evs) = object_values ps4"
    and B4: "emit (Suc 0) idle (debug_then (VArr 0 [VStr ''a''])) (VStr ''b'') (VNum 7) \<noteq> None \<longleftrightarrow>
           (\<forall>(f, hx) \<in> set (call_states (Suc 0) idle (object_values ps4) (VNum 7) (debug_then (VArr 0 [VStr ''a'']))).
                     call_fn (Suc 0) idle f [VNum 7] hx \<noteq> None)"
    by (simp only: simp_thms if_not_P[OF ninL]) (elim exE conjE)
  from A4[rule_format, OF e4]
  have "logger_calls e4 = []" by (rule conjunct1)
  then have 4: "logged (emit (Suc 0) idle (debug_then (VArr 0 [VStr ''a''])) (VStr ''b'') (VNum 7)) = []"
    by (simp add: e4 logged_def)
  from Fa[THEN conjunct2, THEN conjunct1] obtain ps5 where
    c5: "callbacks (debug_then (VBool False)) ''a'' = Some ps5" and
    A5: "\<forall>r h' evs. emit (Suc 0) idle (debug_then (VBool False)) (VStr ''a'') (VNum 7) = Some (r, h', evs) \<longrightarrow>
           logger_calls evs = [] \<and> (\<exists>v. r = Inr v)
             \<and> after_calls (Suc 0) idle (object_values ps5) (VNum 7) (debug_then (VBool False)) = Some h'
             \<and> map fst (listener_calls evs) = object_values ps5"
    and B5: "emit (Suc 0) idle (debug_then (VBool False)) (VStr ''a'') (VNum 7) \<noteq> None \<longleftrightarrow>
           (\<forall>(f, hx) \<in> set (call_states (Suc 0) idle (object_values ps5) (VNum 7) (debug_then (VBool False))).
                     call_fn (Suc 0) idle f [VNum 7] hx \<noteq> None)"
    by (simp only: simp_thms if_not_P[OF ninF]) (elim exE conjE)
  from A5[rule_format, OF e5]
  have "logger_calls e5 = []" by (rule conjunct1)
  then have 5: "logged (emit (Suc 0) idle (debug_then (VBool False)) (VStr ''a'') (VNum 7)) = []"
    by (simp add: e5 logged_def)
  have cb1: "callbacks (debug_then (VBool True)) ''a'' = Some [(''y'', UserFn 2), (''z'', UserFn 3)]"
    by (simp add: debug_then_def two_listeners_def hub_ops)
  from c1 cb1 have "ps1 = [(''y'', UserFn 2), (''z'', UserFn 3)]" by (simp only: option.inject)
  then have o1: "object_values ps1 = [UserFn 2, UserFn 3]" by (simp add: hub_ops)
  have cf: "call_fn (Suc 0) idle (logger (debug_then (VBool True))) [VStr ''a'', VNum 7] (debug_then (VBool True))
            = Some (Inr (), debug_then (VBool True), [ConsoleLog (VStr ''a'') (VNum 7)])"
    by (simp add: lgT arg_def)
  have fin: "\<forall>(f, hx) \<in> set (call_states (Suc 0) idle (object_values ps1) (VNum 7) (debug_then (VBool True))).
               call_fn (Suc 0) idle f [VNum 7] hx \<noteq> None"
    by (simp add: o1 idle_def)
  have "\<exists>rl h1 nested.
               call_fn (Suc 0) idle (logger (debug_then (VBool True))) [VStr ''a'', VNum 7] (debug_then (VBool True))
                 = Some (rl, h1, nested)
             \<and> (rl = Inr () \<longrightarrow>
                  (\<forall>(f, hx) \<in> set (call_states (Suc 0) idle (object_values ps1) (VNum 7) h1).
                     call_fn (Suc 0) idle f [VNum 7] hx \<noteq> None))"
    using cf fin
    by (intro exI[of _ "Inr ()"] exI[of _ "debug_then (VBool True)"]
          exI[of _ "[ConsoleLog (VStr ''a'') (VNum 7)]"] conjI impI)
  with B1 have 6: "emit (Suc 0) idle (debug_then (VBool True)) (VStr ''a'') (VNum 7) \<noteq> None"
    by (rule iffD2)
  have zz: "VStr ''zz'' \<in> set [VStr ''a'', VStr ''zz'']" "valid_event ?h (VStr ''zz'') = None"
    "valid_event ?h (VStr ''a'') \<noteq> None"
    by (simp_all add: ve)
  from Ta[THEN conjunct2, THEN conjunct2, THEN conjunct1] zz
  have 7: "setDebug ?h (VArr 0 [VStr ''a'', VStr ''zz''])
            = (Inl (EventNotRegistered (VStr ''zz'') [''a'', ''b'']), ?h)"
    by (auto simp: not_registered_def ve)
  from Ta[THEN conjunct2, THEN conjunct2, THEN conjunct2]
  have 8: "setDebug ?h (VNum 1) = (Inl DebugNotBooleanOrArray, ?h)" by simp
  from 1 2 3 4 5 6 7 8 show ?thesis by (intro conjI)
qed

section \<open>C10: an operation that throws leaves the state as it was\<close>

lemma on_error_state: "on h c i f = (Inl e, h') \<Longrightarrow> h' = h"
  by (auto simp: on_def split: option.splits jsval.splits if_splits)

lemma off_error_state: "off h c i = (Inl e, h') \<Longrightarrow> h' = h"
  by (auto simp: off_def split: option.splits jsval.splits if_splits)

lemma clear_error_state: "clear h c = (Inl e, h') \<Longrightarrow> h' = h"
  by (auto simp: clear_def split: option.splits if_splits)

lemma setDebug_error_state: "setDebug h d = (Inl e, h') \<Longrightarrow> h' = h"
  by (auto simp: setDebug_def split: option.splits jsval.splits if_splits)

lemma setLogger_error_state: "setLogger h f = (Inl e, h') \<Longrightarrow> h' = h"
  by (auto simp: setLogger_def split: jsval.splits)

lemma once_error_state:
  assumes "once h c i f = (Inl e, h')"
  shows "callbacks h' = callbacks h \<and> debugAll h' = debugAll h \<and> debugFilter h' = debugFilter h
         \<and> logger h' = logger h \<and> eventNames h' = eventNames h \<and> validEvents h' = validEvents h"
proof (cases "valid_event h c")
  case None
  with assms show ?thesis by (simp add: once_def)
next
  case (Some ev)
  show ?thesis
  proof (cases f)
    case (VFun g)
    let ?h1 = "h\<lparr>onceWrappers := weakmap_set g (OnceWrapper ev i g) (onceWrappers h)\<rparr>"
    from assms Some VFun have "on ?h1 c i (VFun (OnceWrapper ev i g)) = (Inl e, h')"
      by (simp add: once_def Let_def)
    from on_error_state[OF this] show ?thesis by simp
  qed (use assms Some in \<open>auto simp: once_def\<close>)
qed

lemma once_invalid_id:
  assumes "(\<forall>s. i \<noteq> VStr s) \<or> (\<exists>s. i = VStr s \<and> trim s = [])"
  shows "\<exists>e. fst (once h c i f) = Inl e"
proof (cases "valid_event h c")
  case None
  then show ?thesis by (simp add: once_def)
next
  case (Some ev)
  show ?thesis
  proof (cases f)
    case (VFun g)
    let ?h1 = "h\<lparr>onceWrappers := weakmap_set g (OnceWrapper ev i g) (onceWrappers h)\<rparr>"
    have v1: "valid_event ?h1 c = Some ev" using Some by (cases c) (auto split: if_splits)
    have "fst (on ?h1 c i (VFun (OnceWrapper ev i g))) = Inl ListenerIdNotNonEmptyString"
      using assms v1 by (cases i) (auto simp: on_def)
    with Some VFun show ?thesis by (simp add: once_def Let_def)
  qed (use Some in \<open>auto simp: once_def\<close>)
qed

text \<open>
  C10 (as amended).  When \<^verbatim>\<open>on\<close>, \<^verbatim>\<open>off\<close>, \<^verbatim>\<open>clear\<close>, \<^verbatim>\<open>setDebug\<close> or \<^verbatim>\<open>setLogger\<close>
  throws, the state is the state before the call.  When \<^verbatim>\<open>once\<close> throws, the listener
  registry, the debug mode and filter, the logger and the event names are those before
  the call (the WeakMap of wrappers, which nothing reads, may have a new entry).
  \<^verbatim>\<open>emit\<close> on an undeclared event throws and leaves the state as it is.  Whenever
  \<^verbatim>\<open>emit\<close> throws, either the state is the state before the call, or debug is enabled
  for the event, the error is the one the logger threw, and the state is the one in which
  the logger's call ended: the logger is called outside the \<^verbatim>\<open>try\<close>, with the hub in its
  reach.  In particular \<^verbatim>\<open>setDebug\<close> with a list that has an undeclared element throws
  and keeps the state, and \<^verbatim>\<open>once\<close> with an id that is not a string or is blank throws
  and registers nothing.  (\<^verbatim>\<open>listenerCount\<close>, \<^verbatim>\<open>listeners\<close> and \<^verbatim>\<open>eventNames\<close> assign
  no state at all.)
\<close>

theorem errors_keep_state:
  "(\<forall>e h'. on h c i f = (Inl e, h') \<longrightarrow> h' = h)
   \<and> (\<forall>e h'. once h c i f = (Inl e, h') \<longrightarrow>
         callbacks h' = callbacks h \<and> debugAll h' = debugAll h \<and> debugFilter h' = debugFilter h
         \<and> logger h' = logger h \<and> eventNames h' = eventNames h \<and> validEvents h' = validEvents h)
   \<and> (\<forall>e h'. off h c i = (Inl e, h') \<longrightarrow> h' = h)
   \<and> (\<forall>e h'. clear h c = (Inl e, h') \<longrightarrow> h' = h)
   \<and> (\<forall>e h'. setDebug h d = (Inl e, h') \<longrightarrow> h' = h)
   \<and> (\<forall>e h'. setLogger h f = (Inl e, h') \<longrightarrow> h' = h)
   \<and> (valid_event h c = None \<longrightarrow> emit n prog h c d = Some (Inl (not_registered h c), h, []))
   \<and> (\<forall>e h' evs. emit n prog h c d = Some (Inl e, h', evs) \<longrightarrow>
         h' = h
         \<or> (\<exists>ev levs. valid_event h c = Some ev \<and> c = VStr ev \<and> debug_enabled h ev
              \<and> call_fn n prog (logger h) [c, d] h = Some (Inl e, h', levs)
              \<and> evs = [Invoked AsLogger (logger h) [c, d] levs (Some e)]))
   \<and> (\<forall>x \<in> set L. valid_event h x = None \<longrightarrow>
         (\<exists>e. setDebug h (VArr a L) = (Inl e, h)))
   \<and> ((\<forall>s. i \<noteq> VStr s) \<or> (\<exists>s. i = VStr s \<and> trim s = []) \<longrightarrow>
         (\<exists>e. fst (once h c i f) = Inl e) \<and> callbacks (snd (once h c i f)) = callbacks h)"
proof (intro conjI allI impI ballI)
  assume "valid_event h c = None"
  then show "emit n prog h c d = Some (Inl (not_registered h c), h, [])" by (rule emit_invalid)
next
  fix e h' evs
  assume a: "emit n prog h c d = Some (Inl e, h', evs)"
  show "h' = h
         \<or> (\<exists>ev levs. valid_event h c = Some ev \<and> c = VStr ev \<and> debug_enabled h ev
              \<and> call_fn n prog (logger h) [c, d] h = Some (Inl e, h', levs)
              \<and> evs = [Invoked AsLogger (logger h) [c, d] levs (Some e)])"
  proof (cases "valid_event h c")
    case None
    with a show ?thesis by (simp add: emit.simps)
  next
    case (Some ev)
    then have c: "c = VStr ev" by (auto dest: valid_event_SomeD)
    show ?thesis
    proof (cases "callbacks h ev")
      case None
      with a Some show ?thesis by (simp add: emit.simps)
    next
      case (Some ps)
      from emit_raises[OF \<open>valid_event h c = Some ev\<close> Some a]
      have "call_logger n prog h ev d = Some (Inl e, h', evs)" .
      then show ?thesis using \<open>valid_event h c = Some ev\<close> c
        by (auto simp: call_logger.simps thrown_def split: if_splits option.splits)
    qed
  qed
next
  fix x assume "x \<in> set L" "valid_event h x = None"
  from setDebug_undeclared[OF this, of a] show "\<exists>e. setDebug h (VArr a L) = (Inl e, h)" by blast
next
  assume a: "(\<forall>s. i \<noteq> VStr s) \<or> (\<exists>s. i = VStr s \<and> trim s = [])"
  from once_invalid_id[OF a] obtain e where e: "fst (once h c i f) = Inl e" by blast
  then show "\<exists>e. fst (once h c i f) = Inl e" by blast
  from e have "once h c i f = (Inl e, snd (once h c i f))" by (simp add: prod_eq_iff)
  from once_error_state[OF this] show "callbacks (snd (once h c i f)) = callbacks h" by simp
qed (auto dest: on_error_state once_error_state off_error_state clear_error_state
          setDebug_error_state setLogger_error_state)

text \<open>
  C10 as stated fails for \<^verbatim>\<open>emit\<close>: with debug enabled and a logger that registers a
  listener and then throws, \<^verbatim>\<open>emit\<close> throws the logger's error and event \<open>a\<close> has three
  listeners instead of two.
\<close>

theorem errors_keep_state_counterexample:
  "returned (emit (Suc 0) meddle throwing_logger (VStr ''a'') VUndefined) = Some (Inl (Thrown (VStr ''boom'')))
   \<and> listeners throwing_logger (VStr ''a'') = Inr (RFuns [UserFn 1, UserFn 2])
   \<and> listeners (state_of (emit (Suc 0) meddle throwing_logger (VStr ''a'') VUndefined) throwing_logger) (VStr ''a'')
       = Inr (RFuns [UserFn 1, UserFn 2, UserFn 2])
   \<and> listenerCount throwing_logger (VStr ''a'') = Inr (RNum 2)
   \<and> listenerCount (state_of (emit (Suc 0) meddle throwing_logger (VStr ''a'') VUndefined) throwing_logger) (VStr ''a'')
       = Inr (RNum 3)"
  by (simp add: throwing_logger_def two_listeners_debug_def two_listeners_def hub_ops meddle_def
        returned_def state_of_def)

text \<open>
  Each operation at arguments that make it throw; for \<^verbatim>\<open>emit\<close>, an undeclared event, a
  logger that throws while debug is enabled, and a logger that registers a listener
  before it throws.
\<close>

theorem errors_keep_state_witness:
  "on two_listeners (VStr ''zz'') (VStr ''x'') (VFun (UserFn 1))
     = (Inl (EventNotRegistered (VStr ''zz'') [''a'', ''b'']), two_listeners)
   \<and> fst (once two_listeners (VStr ''a'') (VStr ''  '') (VFun (UserFn 1))) = Inl ListenerIdNotNonEmptyString
   \<and> callbacks (snd (once two_listeners (VStr ''a'') (VStr ''  '') (VFun (UserFn 1)))) = callbacks two_listeners
   \<and> off two_listeners (VStr ''a'') (VNum 3) = (Inl ListenerIdNotString, two_listeners)
   \<and> clear two_listeners (VStr ''zz'') = (Inl (EventNotRegistered (VStr ''zz'') [''a'', ''b'']), two_listeners)
   \<and> setDebug two_listeners_debug (VArr 0 [VStr ''a'', VStr ''zz''])
       = (Inl (EventNotRegistered (VStr ''zz'') [''a'', ''b'']), two_listeners_debug)
   \<and> setLogger two_listeners (VNum 3) = (Inl LoggerNotFunction, two_listeners)
   \<and> emit (Suc 0) boom two_listeners (VStr ''zz'') (VNum 3)
       = Some (Inl (EventNotRegistered (VStr ''zz'') [''a'', ''b'']), two_listeners, [])
   \<and> returned (emit (Suc 0) boom throwing_logger (VStr ''a'') VUndefined) = Some (Inl (Thrown (VStr ''boom'')))
   \<and> state_of (emit (Suc 0) boom throwing_logger (VStr ''a'') VUndefined) two_listeners = throwing_logger
   \<and> returned (emit (Suc 0) meddle throwing_logger (VStr ''a'') VUndefined) = Some (Inl (Thrown (VStr ''boom'')))
   \<and> state_of (emit (Suc 0) meddle throwing_logger (VStr ''a'') VUndefined) two_listeners
       = snd (on throwing_logger (VStr ''a'') (VStr ''q'') (VFun (UserFn 2)))"
proof -
  let ?h = two_listeners
  let ?e = "EventNotRegistered (VStr ''zz'') [''a'', ''b'']"
  note T = errors_keep_state[of ?h "VStr ''zz''" "VStr ''x''" "VFun (UserFn 1)" "VNum 3" "Suc 0" boom "[]" 0]
  note O = errors_keep_state[of ?h "VStr ''a''" "VStr ''  ''" "VFun (UserFn 1)" "VNum 3" 0 boom "[]" 0]
  note F = errors_keep_state[of ?h "VStr ''a''" "VNum 3" "VNum 3" "VNum 3" 0 boom "[]" 0]
  note D = errors_keep_state[of two_listeners_debug "VStr ''a''" "VNum 3" "VNum 3"
             "VArr 0 [VStr ''a'', VStr ''zz'']" 0 boom "[VStr ''a'', VStr ''zz'']" 0]
  note E = errors_keep_state[of throwing_logger "VStr ''a''" "VNum 3" "VNum 3" VUndefined "Suc 0" boom "[]" 0]
  note M = errors_keep_state[of throwing_logger "VStr ''a''" "VNum 3" "VNum 3" VUndefined "Suc 0" meddle "[]" 0]
  have ve: "validEvents ?h = [''a'', ''b'']" by (simp add: two_listeners_def hub_ops)
  have ved: "validEvents two_listeners_debug = [''a'', ''b'']"
    by (simp add: two_listeners_debug_def two_listeners_def hub_ops)
  have "fst (on ?h (VStr ''zz'') (VStr ''x'') (VFun (UserFn 1))) = Inl ?e"
    by (simp add: on_def not_registered_def ve)
  then have "on ?h (VStr ''zz'') (VStr ''x'') (VFun (UserFn 1))
             = (Inl ?e, snd (on ?h (VStr ''zz'') (VStr ''x'') (VFun (UserFn 1))))"
    by (simp add: prod_eq_iff)
  with T[THEN conjunct1] have 1: "on ?h (VStr ''zz'') (VStr ''x'') (VFun (UserFn 1)) = (Inl ?e, ?h)"
    by (metis prod.inject)
  have blank: "(\<forall>s. VStr ''  '' \<noteq> VStr s) \<or> (\<exists>s. VStr ''  '' = VStr s \<and> trim s = [])"
    by (simp add: trim_def is_ws_def)
  have 2: "fst (once ?h (VStr ''a'') (VStr ''  '') (VFun (UserFn 1))) = Inl ListenerIdNotNonEmptyString"
    by (simp add: once_def on_def two_listeners_a ve trim_def is_ws_def Let_def)
  from O[THEN conjunct2, THEN conjunct2, THEN conjunct2, THEN conjunct2, THEN conjunct2,
         THEN conjunct2, THEN conjunct2, THEN conjunct2, THEN conjunct2] blank
  have 3: "callbacks (snd (once ?h (VStr ''a'') (VStr ''  '') (VFun (UserFn 1)))) = callbacks ?h"
    by blast
  have "fst (off ?h (VStr ''a'') (VNum 3)) = Inl ListenerIdNotString"
    by (simp add: off_def ve)
  then have "off ?h (VStr ''a'') (VNum 3) = (Inl ListenerIdNotString, snd (off ?h (VStr ''a'') (VNum 3)))"
    by (simp add: prod_eq_iff)
  with F[THEN conjunct2, THEN conjunct2, THEN conjunct1]
  have 4: "off ?h (VStr ''a'') (VNum 3) = (Inl ListenerIdNotString, ?h)"
    by (metis prod.inject)
  have "fst (clear ?h (VStr ''zz'')) = Inl ?e"
    by (simp add: clear_def not_registered_def ve)
  then have "clear ?h (VStr ''zz'') = (Inl ?e, snd (clear ?h (VStr ''zz'')))"
    by (simp add: prod_eq_iff)
  with T[THEN conjunct2, THEN conjunct2, THEN conjunct2, THEN conjunct1]
  have 5: "clear ?h (VStr ''zz'') = (Inl ?e, ?h)"
    by (metis prod.inject)
  have "fst (setDebug two_listeners_debug (VArr 0 [VStr ''a'', VStr ''zz''])) = Inl ?e"
    by (simp add: setDebug_def not_registered_def ved)
  then have "setDebug two_listeners_debug (VArr 0 [VStr ''a'', VStr ''zz''])
             = (Inl ?e, snd (setDebug two_listeners_debug (VArr 0 [VStr ''a'', VStr ''zz''])))"
    by (simp add: prod_eq_iff)
  with D[THEN conjunct2, THEN conjunct2, THEN conjunct2, THEN conjunct2, THEN conjunct1]
  have 6: "setDebug two_listeners_debug (VArr 0 [VStr ''a'', VStr ''zz'']) = (Inl ?e, two_listeners_debug)"
    by (metis prod.inject)
  have "fst (setLogger ?h (VNum 3)) = Inl LoggerNotFunction" by (simp add: setLogger_def)
  then have "setLogger ?h (VNum 3) = (Inl LoggerNotFunction, snd (setLogger ?h (VNum 3)))"
    by (simp add: prod_eq_iff)
  with F[THEN conjunct2, THEN conjunct2, THEN conjunct2, THEN conjunct2, THEN conjunct2, THEN conjunct1]
  have 7: "setLogger ?h (VNum 3) = (Inl LoggerNotFunction, ?h)"
    by (metis prod.inject)
  have zz: "valid_event ?h (VStr ''zz'') = None" by (simp add: ve)
  from T[THEN conjunct2, THEN conjunct2, THEN conjunct2, THEN conjunct2, THEN conjunct2,
         THEN conjunct2, THEN conjunct1] zz
  have 8: "emit (Suc 0) boom ?h (VStr ''zz'') (VNum 3) = Some (Inl ?e, ?h, [])"
    by (simp add: not_registered_def ve)
  let ?run = "emit (Suc 0) boom throwing_logger (VStr ''a'') VUndefined"
  obtain hx evs where run: "?run = Some (Inl (Thrown (VStr ''boom'')), hx, evs)"
    by (simp add: throwing_logger_def two_listeners_debug_def two_listeners_def hub_ops boom_def)
  have lg: "call_fn (Suc 0) boom (logger throwing_logger) [VStr ''a'', VUndefined] throwing_logger
              = Some (Inl (Thrown (VStr ''boom'')), throwing_logger, [])"
    by (simp add: throwing_logger_def setLogger_def boom_def)
  from E[THEN conjunct2, THEN conjunct2, THEN conjunct2, THEN conjunct2, THEN conjunct2,
         THEN conjunct2, THEN conjunct2, THEN conjunct1] run lg
  have hx: "hx = throwing_logger" by auto
  have 9: "returned ?run = Some (Inl (Thrown (VStr ''boom'')))"
    by (simp only: run returned_def option.case prod.case)
  have 10: "state_of ?run two_listeners = throwing_logger"
    by (simp only: run hx state_of_def option.case prod.case)
  let ?run2 = "emit (Suc 0) meddle throwing_logger (VStr ''a'') VUndefined"
  let ?hq = "snd (on throwing_logger (VStr ''a'') (VStr ''q'') (VFun (UserFn 2)))"
  obtain hy evs2 where run2: "?run2 = Some (Inl (Thrown (VStr ''boom'')), hy, evs2)"
    by (simp add: throwing_logger_def two_listeners_debug_def two_listeners_def hub_ops meddle_def)
  have lg2: "call_fn (Suc 0) meddle (logger throwing_logger) [VStr ''a'', VUndefined] throwing_logger
              = Some (Inl (Thrown (VStr ''boom'')), ?hq, [])"
    by (simp add: throwing_logger_def two_listeners_debug_def two_listeners_def hub_ops meddle_def)
  from M[THEN conjunct2, THEN conjunct2, THEN conjunct2, THEN conjunct2, THEN conjunct2,
         THEN conjunct2, THEN conjunct2, THEN conjunct1] run2 lg2
  have hy: "hy = throwing_logger \<or> hy = ?hq" by auto
  have 11: "returned ?run2 = Some (Inl (Thrown (VStr ''boom'')))"
    by (simp only: run2 returned_def option.case prod.case)
  have "listenerCount (state_of ?run2 two_listeners) (VStr ''a'') = Inr (RNum 3)"
    by (simp add: throwing_logger_def two_listeners_debug_def two_listeners_def hub_ops meddle_def state_of_def)
  moreover have "state_of ?run2 two_listeners = hy"
    by (simp only: run2 state_of_Some)
  ultimately have "listenerCount hy (VStr ''a'') = Inr (RNum 3)" by (simp only:)
  moreover have "listenerCount throwing_logger (VStr ''a'') = Inr (RNum 2)"
    by (simp add: throwing_logger_def two_listeners_debug_def two_listeners_def hub_ops)
  ultimately have "hy \<noteq> throwing_logger" by auto
  with hy have hy': "hy = ?hq" by simp
  have 12: "state_of ?run2 two_listeners = ?hq"
    by (simp only: run2 hy' state_of_def option.case prod.case)
  from 1 2 3 4 5 6 7 8 9 10 11 12 show ?thesis by (intro conjI)
qed

section \<open>C2: a \<^verbatim>\<open>once\<close> listener whose callback throws\<close>





lemma set_obj_set: "set (obj_set i v ps) \<subseteq> insert (i, v) (set ps)"
  by (induction ps) (auto split: if_splits)



lemma valid_event_onceWrappers_upd [simp]:
  "valid_event (h\<lparr>onceWrappers := w\<rparr>) v = valid_event h v"
  by (cases v) auto

lemma debug_enabled_onceWrappers_upd [simp]:
  "debug_enabled (h\<lparr>onceWrappers := w\<rparr>) ev = debug_enabled h ev"
  by (simp add: debug_enabled_def)

lemma debug_enabled_callbacks_upd [simp]:
  "debug_enabled (h\<lparr>callbacks := c\<rparr>) ev = debug_enabled h ev"
  by (simp add: debug_enabled_def)









section \<open>C6: a \<^verbatim>\<open>once\<close> listener fires once\<close>










end
